theory Spec2Isabelle
  imports Main "HOL-Library.AList"
begin

section \<open>The rule-configuration registry (core/rules/config\_info.py)\<close>

text \<open>
  Python values that occur as members of a validator list: strings and booleans
  (integers are included so that a list of any literal can be written down).
\<close>

datatype py_value = PyStr string | PyBool bool | PyInt int

text \<open>
  The \<open>validation\<close> entry of a configuration option is either \<open>range(n)\<close>, the integers
  \<open>0 \<le> i < n\<close>, or a list literal.
\<close>

datatype py_validation = PyRange int int | PyList "py_value list"

definition range :: "int \<Rightarrow> py_validation" where
  "range n = PyRange 0 n"

record config_info =
  validation :: py_validation
  definition_text :: string

text \<open>
  The dictionary literal, entry by entry and in source order. Adjacent string literals of
  the source are concatenated by Python at compile time; here they are joined by \<open>@\<close>.
\<close>

definition STANDARD_CONFIG_INFO_DICT :: "(string \<times> config_info) list" where
  "STANDARD_CONFIG_INFO_DICT =
   [(''tab_space_size'',
      \<lparr>validation = range 100,
       definition_text = ''The number of spaces to consider equal to one tab. ''
         @ ''Used in the fixing step of this rule''\<rparr>),
    (''max_line_length'',
      \<lparr>validation = range 1000,
       definition_text = ''The maximum length of a line to allow without ''
         @ ''raising a violation''\<rparr>),
    (''indent_unit'',
      \<lparr>validation = PyList [PyStr ''space'', PyStr ''tab''],
       definition_text = ''Whether to use tabs or spaces to add new indents''\<rparr>),
    (''comma_style'',
      \<lparr>validation = PyList [PyStr ''leading'', PyStr ''trailing''],
       definition_text = ''The comma style to to enforce''\<rparr>),
    (''allow_scalar'',
      \<lparr>validation = PyList [PyBool True, PyBool False],
       definition_text = ''Whether or not to allow a single element in the ''
         @ '' select clause to be without an alias''\<rparr>),
    (''single_table_references'',
      \<lparr>validation = PyList [PyStr ''consistent'', PyStr ''qualified'', PyStr ''unqualified''],
       definition_text = ''The expectation for references in single-table select''\<rparr>),
    (''unquoted_identifiers_policy'',
      \<lparr>validation = PyList [PyStr ''all'', PyStr ''aliases'', PyStr ''column_aliases''],
       definition_text = ''Types of unquoted identifiers to flag violations for''\<rparr>),
    (''capitalisation_policy'',
      \<lparr>validation = PyList [PyStr ''consistent'', PyStr ''upper'', PyStr ''lower'',
         PyStr ''capitalise''],
       definition_text = ''The capitalisation policy to enforce''\<rparr>),
    (''extended_capitalisation_policy'',
      \<lparr>validation = PyList [PyStr ''consistent'', PyStr ''upper'', PyStr ''lower'',
         PyStr ''pascal'', PyStr ''capitalise''],
       definition_text = ''The capitalisation policy to enforce, extended with PascalCase. ''
         @ ''This is separate from capitalisation_policy as it should not be ''
         @ ''applied to keywords.''\<rparr>),
    (''lint_templated_tokens'',
      \<lparr>validation = PyList [PyBool True, PyBool False],
       definition_text = ''Should lines starting with a templating placeholder''
         @ '' such as `{{blah}}` have their indentation linted''\<rparr>),
    (''select_clause_trailing_comma'',
      \<lparr>validation = PyList [PyStr ''forbid'', PyStr ''require''],
       definition_text =
         ''Should trailing commas within select clauses be required or forbidden''\<rparr>),
    (''ignore_comment_lines'',
      \<lparr>validation = PyList [PyBool True, PyBool False],
       definition_text = ''Should lines that contain only whitespace and comments''
         @ '' be ignored when linting line lengths''\<rparr>),
    (''forbid_subquery_in'',
      \<lparr>validation = PyList [PyStr ''join'', PyStr ''from'', PyStr ''both''],
       definition_text = ''Which clauses should be linted for subqueries''\<rparr>),
    (''prefer_count_1'',
      \<lparr>validation = PyList [PyBool True, PyBool False],
       definition_text = ''Should count(1) be preferred over count('' @ [CHR ''*'']
         @ '') and count(0)?''\<rparr>),
    (''prefer_count_0'',
      \<lparr>validation = PyList [PyBool True, PyBool False],
       definition_text = ''Should count(0) be preferred over count('' @ [CHR ''*'']
         @ '') and count(1)?''\<rparr>),
    (''operator_new_lines'',
      \<lparr>validation = PyList [PyStr ''before'', PyStr ''after''],
       definition_text = ''Should operator be placed before or after newlines.''\<rparr>)]"

text \<open>The three validator shapes the rule layer understands.\<close>

fun is_str :: "py_value \<Rightarrow> bool" where
  "is_str (PyStr s) = True"
| "is_str (PyBool b) = False"
| "is_str (PyInt i) = False"

fun is_enumerated_strings :: "py_validation \<Rightarrow> bool" where
  "is_enumerated_strings (PyList vs) = (vs \<noteq> [] \<and> list_all is_str vs)"
| "is_enumerated_strings (PyRange lo hi) = False"

fun is_bounded_range :: "py_validation \<Rightarrow> bool" where
  "is_bounded_range (PyRange lo hi) = (lo \<le> hi)"
| "is_bounded_range (PyList vs) = False"

fun is_boolean_set :: "py_validation \<Rightarrow> bool" where
  "is_boolean_set (PyList vs) = (vs = [PyBool True, PyBool False])"
| "is_boolean_set (PyRange lo hi) = False"

text \<open>How many of the three shapes a validator has; "exactly one" is \<open>shape_count v = 1\<close>.\<close>

definition shape_count :: "py_validation \<Rightarrow> nat" where
  "shape_count v =
     (if is_enumerated_strings v then 1 else 0) + (if is_bounded_range v then 1 else 0)
       + (if is_boolean_set v then 1 else 0)"

definition legal_config_info :: "config_info \<Rightarrow> bool" where
  "legal_config_info e = (shape_count (validation e) = 1 \<and> definition_text e \<noteq> [])"


subsection \<open>Merging the plugins' dictionaries\<close>

text \<open>
  A Python dictionary keeps its items in insertion order and holds each key once: it is an
  association list with distinct keys. Assigning to a key that is present replaces its
  value in place, assigning to a new key appends the item; that is \<open>AList.update\<close>.
  A dictionary comprehension assigns the items it is given one after the other, starting
  from the empty dictionary.
\<close>

type_synonym ('k, 'v) py_dict = "('k \<times> 'v) list"

definition keys :: "('k, 'v) py_dict \<Rightarrow> 'k set" where
  "keys d = fst ` set d"

definition dict_comprehension :: "('k \<times> 'v) list \<Rightarrow> ('k, 'v) py_dict" where
  "dict_comprehension kvs = foldl (\<lambda>d (k, v). AList.update k v d) [] kvs"

text \<open>
  \<open>get_config_info\<close>: the argument is the list that the plugin manager's hook
  \<open>get_configs_info\<close> returns, one dictionary per plugin; the two nested \<open>for\<close> clauses
  of the comprehension run through the items of each dictionary in turn.
\<close>

definition get_config_info :: "('k, 'v) py_dict list \<Rightarrow> ('k, 'v) py_dict" where
  "get_config_info configs_info = dict_comprehension (concat configs_info)"

section \<open>Column references of the BigQuery dialect (dialects/dialect\_bigquery.py)\<close>

text \<open>
  The enumeration \<open>ObjectReferenceLevel\<close> and the methods \<open>_level_to_int\<close>,
  \<open>iter_raw_references\<close> and the inherited \<open>extract_possible_references\<close> belong to the
  ANSI dialect's \<open>ObjectReferenceSegment\<close>. A segment carries them as fields: the value of
  each enumeration member, the conversion of a level argument to an integer, the list of
  its reference parts, and what the base class answers for an integer level.
\<close>

datatype ObjectReferenceLevel = OBJECT | TABLE | SCHEMA

record ('l, 'p) object_reference_segment =
  level_to_int :: "'l \<Rightarrow> int"
  level_value :: "ObjectReferenceLevel \<Rightarrow> int"
  raw_references :: "'p list"
  super_extract_possible_references :: "int \<Rightarrow> 'p list"

text \<open>\<open>ColumnReferenceSegment.extract_possible_references\<close>, branch by branch.\<close>

definition extract_possible_references ::
  "('l, 'p) object_reference_segment \<Rightarrow> 'l \<Rightarrow> 'p list" where
  "extract_possible_references self level =
     (let level = level_to_int self level;
          refs = raw_references self
      in if level = level_value self SCHEMA \<and> length refs \<ge> 3 then [refs ! 0]
         else if level = level_value self TABLE \<and> length refs \<ge> 3 then [refs ! 0, refs ! 1]
         else if level = level_value self OBJECT \<and> length refs \<ge> 3 then [refs ! 1, refs ! 2]
         else super_extract_possible_references self level)"


section \<open>Hyphenated object references (dialects/dialect\_bigquery.py)\<close>

text \<open>
  \<open>itertools.groupby\<close>: the input is cut into runs of consecutive elements with equal
  keys; each run is returned with its key.
\<close>

function groupby :: "('a \<Rightarrow> 'k) \<Rightarrow> 'a list \<Rightarrow> ('k \<times> 'a list) list" where
  "groupby key [] = []"
| "groupby key (x # xs) =
     (key x, x # takeWhile (\<lambda>y. key y = key x) xs)
       # groupby key (dropWhile (\<lambda>y. key y = key x) xs)"
  by pat_completeness auto
termination
  by (relation "measure (\<lambda>(key, xs). length xs)")
     (auto simp: length_dropWhile_le less_Suc_eq_le)

datatype 'seg ObjectReferencePart = ObjectReferencePart (part: string) (segments: "'seg list")

text \<open>
  \<open>HyphenatedObjectReferenceSegment.iter_raw_references\<close>. The segment class's methods
  \<open>is_type\<close> and \<open>raw_trimmed\<close> and the result of
  \<open>self.recursive_crawl("identifier", "binary_operator", "dot")\<close> (the list \<open>crawl\<close>)
  come from the parser core and are parameters. The generator's yields, in order, are the
  list returned.
\<close>

definition iter_raw_references ::
  "('seg \<Rightarrow> string \<Rightarrow> bool) \<Rightarrow> ('seg \<Rightarrow> string) \<Rightarrow> 'seg list
     \<Rightarrow> 'seg ObjectReferencePart list" where
  "iter_raw_references is_type raw_trimmed crawl =
     concat (map (\<lambda>(is_dot, elems).
        if \<not> is_dot then [ObjectReferencePart (concat (map raw_trimmed elems)) elems] else [])
      (groupby (\<lambda>e. is_type e ''dot'') crawl))"

text \<open>
  The description to compare with: cutting a list at every separator gives the pieces
  between separators (as \<open>str.split\<close> does for strings); the maximal runs separated by
  dots are the pieces that are not empty.
\<close>

definition split_at :: "('a \<Rightarrow> bool) \<Rightarrow> 'a list \<Rightarrow> 'a list list" where
  "split_at sep xs = foldr (\<lambda>x acc. if sep x then [] # acc else (x # hd acc) # tl acc) xs [[]]"

definition dot_separated_runs :: "('a \<Rightarrow> bool) \<Rightarrow> 'a list \<Rightarrow> 'a list list" where
  "dot_separated_runs is_dot xs = filter (\<lambda>run. run \<noteq> []) (split_at is_dot xs)"

definition non_dot_groups :: "('a \<Rightarrow> bool) \<Rightarrow> 'a list \<Rightarrow> 'a list list" where
  "non_dot_groups is_dot xs = map snd (filter (\<lambda>(d, es). \<not> d) (groupby is_dot xs))"


section \<open>The lexer of a dialect\<close>

text \<open>
  Modelled from the spec: the segment classes a lexer matcher names
  (\<open>sqlfluff.core.parser\<close>, not among the sources). Section 2 lists code, whitespace,
  comment and newline segments, section 4.1 the unlexable leaf, section 3 the zero-width
  markers that carry no text.
\<close>

datatype segment_class =
  CodeSegment | WhitespaceSegment | CommentSegment | NewlineSegment | UnlexableSegment
| MetaSegment

text \<open>
  Modelled from the spec: the lexer matchers \<open>StringLexer\<close> and \<open>RegexLexer\<close>
  (\<open>sqlfluff.core.parser\<close>, not among the sources), "fixed-string or pattern-based"
  matchers; each has a name, a template or pattern, and the class of segment it makes, as
  in the calls of the BigQuery dialect.
\<close>

datatype lexer_matcher =
  StringLexer string string segment_class
| RegexLexer string string segment_class

fun lexer_name :: "lexer_matcher \<Rightarrow> string" where
  "lexer_name (StringLexer name template cls) = name"
| "lexer_name (RegexLexer name pattern cls) = name"

fun lexer_class :: "lexer_matcher \<Rightarrow> segment_class" where
  "lexer_class (StringLexer name template cls) = cls"
| "lexer_class (RegexLexer name pattern cls) = cls"

text \<open>
  Modelled from the spec: the raw segment the lexer emits (section 3, Token/RawSegment):
  a type tag (here the matcher's name and segment class), the exact source slice and its
  start offset.
\<close>

record raw_segment =
  seg_name :: string
  seg_class :: segment_class
  raw :: string
  pos :: nat

text \<open>
  Python's regular expressions are outside the repository: a regex engine is a parameter
  that gives, for a pattern and a text, the length of the match of the pattern at the
  start of the text (0 when it does not match there).
\<close>

type_synonym regex_engine = "string \<Rightarrow> string \<Rightarrow> nat"

text \<open>
  Modelled from the spec: how far one lexer matcher matches at the start of the rest of
  the input (the lexer of \<open>sqlfluff.core.parser\<close>, not among the sources). A match of
  length 0 is no match.
\<close>

fun match_length :: "regex_engine \<Rightarrow> lexer_matcher \<Rightarrow> string \<Rightarrow> nat" where
  "match_length re (StringLexer name template cls) text =
     (if template \<noteq> [] \<and> take (length template) text = template then length template else 0)"
| "match_length re (RegexLexer name pattern cls) text = min (re pattern text) (length text)"

text \<open>
  Modelled from the spec: "matchers are tried in declared order at each position, first
  match wins" (section 4.1; the lexer is not among the sources).
\<close>

fun first_match ::
  "regex_engine \<Rightarrow> lexer_matcher list \<Rightarrow> string \<Rightarrow> (lexer_matcher \<times> nat) option" where
  "first_match re [] text = None"
| "first_match re (m # ms) text =
     (if 0 < match_length re m text then Some (m, match_length re m text)
      else first_match re ms text)"

lemma match_length_le: "match_length re m text \<le> length text"
  by (cases m) (auto dest: arg_cong [where f = length])

lemma first_match_bounds:
  "first_match re ms text = Some (m, n) \<Longrightarrow> 0 < n \<and> n \<le> length text"
  by (induction ms) (auto simp: match_length_le split: if_splits)

text \<open>
  Modelled from the spec: the lexer (section 4.1; not among the sources). It covers the
  whole input with segments, without gaps or overlaps; where no matcher matches, the next
  character becomes an unlexable leaf and lexing goes on behind it.
\<close>

function lex :: "regex_engine \<Rightarrow> lexer_matcher list \<Rightarrow> nat \<Rightarrow> string \<Rightarrow> raw_segment list" where
  "lex re ms p text =
     (if text = [] then []
      else case first_match re ms text of
        Some (m, n) \<Rightarrow>
          \<lparr>seg_name = lexer_name m, seg_class = lexer_class m, raw = take n text, pos = p\<rparr>
            # lex re ms (p + n) (drop n text)
      | None \<Rightarrow>
          \<lparr>seg_name = ''unlexable'', seg_class = UnlexableSegment, raw = take 1 text, pos = p\<rparr>
            # lex re ms (p + 1) (drop 1 text))"
  by pat_completeness auto
termination
proof (relation "measure (\<lambda>(re, ms, p, text). length text)")
  show "wf (measure (\<lambda>(re, ms, p, text). length text))" by simp
next
  fix re ms p inp x2 x y
  assume "inp \<noteq> []" and "first_match re ms inp = Some x2" and "(x, y) = x2"
  then have "first_match re ms inp = Some (x, y)" by simp
  from first_match_bounds [OF this] \<open>inp \<noteq> []\<close>
  show "((re, ms, p + y, drop y inp), (re, ms, p, inp)) \<in> measure (\<lambda>(re, ms, p, text). length text)"
    by simp
next
  fix re ms p inp
  assume "inp \<noteq> []"
  then show "((re, ms, p + 1, drop 1 inp), (re, ms, p, inp)) \<in> measure (\<lambda>(re, ms, p, text). length text)"
    by (cases inp) simp_all
qed

declare lex.simps [simp del]

text \<open>
  Modelled from the spec: \<open>Dialect.insert_lexer_matchers\<close> (\<open>sqlfluff.core.dialects\<close>, not
  among the sources), the "insert-before-named-matcher" edit: the new matchers go
  immediately before the matcher that has the anchor's name. The spec does not say what
  happens without such a matcher; here the edit is refused.
\<close>

definition insert_lexer_matchers ::
  "lexer_matcher list \<Rightarrow> string \<Rightarrow> lexer_matcher list \<Rightarrow> lexer_matcher list option" where
  "insert_lexer_matchers lexer_patch before_name lexer_matchers =
     (if before_name \<in> lexer_name ` set lexer_matchers
      then Some (takeWhile (\<lambda>m. lexer_name m \<noteq> before_name) lexer_matchers @ lexer_patch
                   @ dropWhile (\<lambda>m. lexer_name m \<noteq> before_name) lexer_matchers)
      else None)"

text \<open>
  Modelled from the spec: \<open>Dialect.patch_lexer_matchers\<close> (\<open>sqlfluff.core.dialects\<close>, not
  among the sources), the "patch-named-matcher" edit: a matcher whose name a patch has is
  replaced, in its place, by that patch.
\<close>

definition patch_lexer_matchers ::
  "lexer_matcher list \<Rightarrow> lexer_matcher list \<Rightarrow> lexer_matcher list" where
  "patch_lexer_matchers lexer_patch lexer_matchers =
     map (\<lambda>m. case find (\<lambda>p. lexer_name p = lexer_name m) lexer_patch of
                 Some p \<Rightarrow> p | None \<Rightarrow> m) lexer_matchers"

subsection \<open>The lexer matchers of the BigQuery dialect (dialects/dialect\_bigquery.py)\<close>

text \<open>
  The two patterns of the patched quote matchers, character by character; the single
  quote, the double quote and the backslash are written by their codes.
\<close>

definition sq :: char where "sq = CHR 0x27"
definition dq :: char where "dq = CHR 0x22"
definition bs :: char where "bs = CHR 0x5C"

definition single_quote_pattern :: string where
  "single_quote_pattern =
     ''([rR]?[bB]?|[bB]?[rR]?)?('' @ [sq, sq, sq] @ ''((?<!'' @ [bs, bs] @ '')('' @ [bs, bs]
       @ ''{2})*'' @ [bs, bs, sq] @ ''|'' @ [sq] @ ''{,2}(?!'' @ [sq] @ '')|[^'' @ [sq]
       @ ''])*(?<!'' @ [bs, bs] @ '')('' @ [bs, bs] @ ''{2})*'' @ [sq, sq, sq] @ ''|''
       @ [sq] @ ''((?<!'' @ [bs, bs] @ '')('' @ [bs, bs] @ ''{2})*'' @ [bs, bs, sq]
       @ ''|[^'' @ [sq] @ ''])*(?<!'' @ [bs, bs] @ '')('' @ [bs, bs] @ ''{2})*'' @ [sq]
       @ '')''"

definition double_quote_pattern :: string where
  "double_quote_pattern =
     ''([rR]?[bB]?|[bB]?[rR]?)?('' @ [bs, dq, bs, dq, bs, dq] @ ''((?<!'' @ [bs, bs]
       @ '')('' @ [bs, bs] @ ''{2})*'' @ [bs, bs, bs, dq] @ ''|'' @ [bs, dq] @ ''{,2}(?!''
       @ [bs, dq] @ '')|[^'' @ [bs, dq] @ ''])*(?<!'' @ [bs, bs] @ '')('' @ [bs, bs]
       @ ''{2})*'' @ [bs, dq, bs, dq, bs, dq] @ ''|'' @ [dq] @ ''((?<!'' @ [bs, bs] @ '')(''
       @ [bs, bs] @ ''{2})*'' @ [bs, bs, dq] @ ''|[^'' @ [dq] @ ''])*(?<!'' @ [bs, bs]
       @ '')('' @ [bs, bs] @ ''{2})*'' @ [dq] @ '')''"

text \<open>
  The first two edits of the module, applied to the copy of the ANSI dialect's matcher
  list (the ANSI dialect is not among the sources; its list is the argument):
  \<open>insert_lexer_matchers([StringLexer("right_arrow", "=>", CodeSegment)], before="equals")\<close>
  and then \<open>patch_lexer_matchers\<close> with the two quote matchers.
\<close>

definition bigquery_lexer_matchers :: "lexer_matcher list \<Rightarrow> lexer_matcher list option" where
  "bigquery_lexer_matchers ansi_lexer_matchers =
     (case insert_lexer_matchers [StringLexer ''right_arrow'' ''=>'' CodeSegment] ''equals''
             ansi_lexer_matchers of
        None \<Rightarrow> None
      | Some ms \<Rightarrow>
          Some (patch_lexer_matchers
            [RegexLexer ''single_quote'' single_quote_pattern CodeSegment,
             RegexLexer ''double_quote'' double_quote_pattern CodeSegment] ms))"

text \<open>A small parent matcher list to run the edits on.\<close>

definition example_ansi_lexer_matchers :: "lexer_matcher list" where
  "example_ansi_lexer_matchers =
     [RegexLexer ''single_quote'' ''Q'' CodeSegment,
      StringLexer ''greater_than_or_equal'' ''>='' CodeSegment,
      StringLexer ''equals'' ''='' CodeSegment,
      StringLexer ''greater_than'' ''>'' CodeSegment]"

section \<open>The segment tree, the grammar and the dialect\<close>

text \<open>
  Modelled from the spec: the segment (section 3; the segment classes of
  \<open>sqlfluff.core.parser\<close> are not among the sources): a leaf with its raw text, or a type
  tag with an ordered list of children.
\<close>

datatype segment = RawSegment raw_segment | BaseSegment string "segment list"

text \<open>
  Modelled from the spec: the raw text of a segment is "the raw text of all leaf segments
  in order" (section 3), and rendering a tree (section 8) gives that text.
\<close>

fun raw_text :: "segment \<Rightarrow> string" where
  "raw_text (RawSegment t) = raw t"
| "raw_text (BaseSegment ty children) = concat (map raw_text children)"

text \<open>
  Modelled from the spec: the grammar nodes (section 3, GrammarNode; the grammar classes of
  \<open>sqlfluff.core.parser\<close> are not among the sources). A terminal is a literal or a
  pattern with the type of the segment it produces; each child of a \<open>Sequence\<close> carries
  its optional mark; \<open>Bracketed\<close> names a bracket type and a bracket-pair set, as the calls
  of the BigQuery dialect do; \<open>AnyNumberOf\<close> has its least and (where given) greatest
  number of repetitions; \<open>StartsWith\<close> has its anchor, its terminator (where given) and
  the flag that whitespace has to precede the terminator.
\<close>

datatype terminal = Literal string | Pattern string

datatype grammar =
  Terminal terminal string
| Sequence "(grammar \<times> bool) list"
| OneOf "grammar list"
| Bracketed grammar string string
| Delimited grammar grammar bool
| AnyNumberOf grammar nat "nat option"
| StartsWith grammar "grammar option" bool
| Ref string
| Anything
| Nothing
| Indent
| Dedent

text \<open>
  Modelled from the spec: a name of a dialect stands for a grammar or for a segment
  construction rule (section 3, Dialect): the type of the segment, its match grammar and,
  where it declares one, its parse grammar (section 4.3).
\<close>

datatype library_entry =
  GrammarEntry grammar
| SegmentEntry string grammar "grammar option"

text \<open>
  Modelled from the spec: the dialect (section 3): its name, the map from names to
  grammars and segment rules, the lexer matcher list, the table of bracket-pair sets (a
  pair is a bracket type with the names of its opening and closing grammar) and the name
  of the root grammar the driver applies.
\<close>

record dialect =
  dialect_name :: string
  library :: "string \<Rightarrow> library_entry option"
  lexer_matchers :: "lexer_matcher list"
  bracket_sets :: "string \<Rightarrow> (string \<times> string \<times> string) list"
  root_grammar :: string

section \<open>The match and parse phases\<close>

text \<open>
  Modelled from the spec: what matching a grammar against the segments from the start
  position on gives (section 4.2): no match, or a match with the segments it produced and
  the segments left over. Grammars refer to each other by name, so matching need not
  terminate; the depth of nested grammar applications is bounded by a fuel, and
  \<open>OutOfFuel\<close> stands for a run that did not return within it.
\<close>

datatype match_outcome = OutOfFuel | NoMatch | Match "segment list" "raw_segment list"

type_synonym matcher = "grammar \<Rightarrow> raw_segment list \<Rightarrow> match_outcome"

text \<open>
  Modelled from the spec: the unparsable segment (section 4.5), which wraps a token range
  and "preserves its raw text unchanged".
\<close>

definition unparsable :: "raw_segment list \<Rightarrow> segment list" where
  "unparsable toks = (if toks = [] then [] else [BaseSegment ''unparsable'' (map RawSegment toks)])"

text \<open>
  Modelled from the spec: a terminal matches the segment at the start position by its
  text, a literal by equality and a pattern when the regex engine matches all of it, and
  produces that segment with the terminal's type.
\<close>

fun terminal_matches :: "regex_engine \<Rightarrow> terminal \<Rightarrow> string \<Rightarrow> bool" where
  "terminal_matches re (Literal s) r = (r = s)"
| "terminal_matches re (Pattern p) r = (r \<noteq> [] \<and> re p r = length r)"

definition match_terminal :: "regex_engine \<Rightarrow> terminal \<Rightarrow> string \<Rightarrow> raw_segment list \<Rightarrow> match_outcome" where
  "match_terminal re t ty toks =
     (case toks of
        [] \<Rightarrow> NoMatch
      | tok # rest \<Rightarrow>
          if terminal_matches re t (raw tok) then Match [RawSegment (tok\<lparr>seg_name := ty\<rparr>)] rest
          else NoMatch)"

text \<open>
  Modelled from the spec: whitespace, newlines and comments are the trivia among the raw
  segments (sections 2 and 3). A grammar that holds several elements passes over the
  trivia in front of every element but its first and keeps it in what it produces, so
  that of the alternatives "A" and "A" "B" the second matches all of the input "A B"
  (section 8).
\<close>

definition is_trivia :: "raw_segment \<Rightarrow> bool" where
  "is_trivia tok =
     (seg_class tok = WhitespaceSegment \<or> seg_class tok = NewlineSegment
      \<or> seg_class tok = CommentSegment)"

definition with_gap :: "matcher \<Rightarrow> matcher" where
  "with_gap rec g toks =
     (case rec g (dropWhile is_trivia toks) of
        Match cs rest \<Rightarrow> Match (map RawSegment (takeWhile is_trivia toks) @ cs) rest
      | other \<Rightarrow> other)"

text \<open>
  Modelled from the spec: \<open>Sequence\<close> "requires each non-optional child grammar to match
  in order with no unmatched tokens between required elements; unmatched optional elements
  are simply absent" (section 4.3). \<open>first\<close> matches the elements up to the first one
  that is present, \<open>later\<close> the ones after it; in a sequence the later ones are
  matched past the trivia in front of them, and nothing else lies between two elements.
\<close>

fun match_elements ::
  "matcher \<Rightarrow> matcher \<Rightarrow> (grammar \<times> bool) list \<Rightarrow> raw_segment list \<Rightarrow> match_outcome" where
  "match_elements first later [] toks = Match [] toks"
| "match_elements first later ((g, optional) # children) toks =
     (case first g toks of
        OutOfFuel \<Rightarrow> OutOfFuel
      | NoMatch \<Rightarrow> if optional then match_elements first later children toks else NoMatch
      | Match cs rest \<Rightarrow>
          (case match_elements later later children rest of
             Match cs' rest' \<Rightarrow> Match (cs @ cs') rest'
           | other \<Rightarrow> other))"

definition match_sequence :: "matcher \<Rightarrow> (grammar \<times> bool) list \<Rightarrow> raw_segment list \<Rightarrow> match_outcome" where
  "match_sequence rec children toks = match_elements rec (with_gap rec) children toks"

text \<open>
  Modelled from the spec: \<open>OneOf\<close> "evaluates every alternative's match phase and selects
  the one consuming the most tokens (longest-match), breaking ties by declaration order"
  (section 4.2). The alternatives are run through in declaration order; a later one
  replaces the best so far only when it matches and consumes strictly more. When an
  alternative does not return, neither does the node.
\<close>

definition consumed :: "raw_segment list \<Rightarrow> raw_segment list \<Rightarrow> nat" where
  "consumed toks rest = length toks - length rest"

fun longest :: "raw_segment list \<Rightarrow> match_outcome \<Rightarrow> match_outcome \<Rightarrow> match_outcome" where
  "longest toks OutOfFuel r = OutOfFuel"
| "longest toks best OutOfFuel = OutOfFuel"
| "longest toks best NoMatch = best"
| "longest toks NoMatch (Match cs rest) = Match cs rest"
| "longest toks (Match bcs brest) (Match cs rest) =
     (if consumed toks brest < consumed toks rest then Match cs rest else Match bcs brest)"

definition match_one_of :: "matcher \<Rightarrow> grammar list \<Rightarrow> raw_segment list \<Rightarrow> match_outcome" where
  "match_one_of rec alternatives toks =
     foldl (longest toks) NoMatch (map (\<lambda>g. rec g toks) alternatives)"

text \<open>
  Modelled from the spec: \<open>AnyNumberOf\<close> "greedily repeats while matches succeed, subject
  to min/max bounds; it reports failure only if fewer than min repetitions are found"
  (section 4.3). A repetition that consumes nothing ends the loop, so that there are at
  most as many repetitions as segments. \<open>first\<close> matches the first repetition,
  \<open>later\<close> the ones after it.
\<close>

fun match_repeat ::
  "matcher \<Rightarrow> matcher \<Rightarrow> grammar \<Rightarrow> nat \<Rightarrow> raw_segment list
     \<Rightarrow> (segment list \<times> nat \<times> raw_segment list) option" where
  "match_repeat first later g 0 toks = Some ([], 0, toks)"
| "match_repeat first later g (Suc k) toks =
     (case first g toks of
        OutOfFuel \<Rightarrow> None
      | NoMatch \<Rightarrow> Some ([], 0, toks)
      | Match cs rest \<Rightarrow>
          if length rest < length toks then
            (case match_repeat later later g k rest of
               None \<Rightarrow> None
             | Some (cs', n, rest') \<Rightarrow> Some (cs @ cs', Suc n, rest'))
          else Some ([], 0, toks))"

definition match_any_number_of ::
  "matcher \<Rightarrow> grammar \<Rightarrow> nat \<Rightarrow> nat option \<Rightarrow> raw_segment list \<Rightarrow> match_outcome" where
  "match_any_number_of rec g min_times max_times toks =
     (case match_repeat rec (with_gap rec) g
             (case max_times of None \<Rightarrow> length toks | Some m \<Rightarrow> min m (length toks)) toks of
        None \<Rightarrow> OutOfFuel
      | Some (cs, n, rest) \<Rightarrow> if n < min_times then NoMatch else Match cs rest)"

text \<open>
  Modelled from the spec: \<open>Delimited\<close> "repeatedly applies (element, delimiter) pairs; a
  dangling trailing delimiter is accepted only if the grammar is configured with an
  allow-trailing flag" (section 4.3). The delimiters and the elements after the first
  are matched past the trivia in front of them.
\<close>

fun delimited_tail ::
  "matcher \<Rightarrow> grammar \<Rightarrow> grammar \<Rightarrow> bool \<Rightarrow> nat \<Rightarrow> raw_segment list
     \<Rightarrow> (segment list \<times> raw_segment list) option" where
  "delimited_tail rec elem delim allow_trailing 0 toks = Some ([], toks)"
| "delimited_tail rec elem delim allow_trailing (Suc k) toks =
     (case rec delim toks of
        OutOfFuel \<Rightarrow> None
      | NoMatch \<Rightarrow> Some ([], toks)
      | Match dcs drest \<Rightarrow>
          if length drest < length toks then
            (case rec elem drest of
               OutOfFuel \<Rightarrow> None
             | NoMatch \<Rightarrow> if allow_trailing then Some (dcs, drest) else Some ([], toks)
             | Match ecs erest \<Rightarrow>
                 (case delimited_tail rec elem delim allow_trailing k erest of
                    None \<Rightarrow> None
                  | Some (cs, rest) \<Rightarrow> Some (dcs @ ecs @ cs, rest)))
          else Some ([], toks))"

definition match_delimited ::
  "matcher \<Rightarrow> grammar \<Rightarrow> grammar \<Rightarrow> bool \<Rightarrow> raw_segment list \<Rightarrow> match_outcome" where
  "match_delimited rec elem delim allow_trailing toks =
     (case rec elem toks of
        OutOfFuel \<Rightarrow> OutOfFuel
      | NoMatch \<Rightarrow> NoMatch
      | Match ecs erest \<Rightarrow>
          (case delimited_tail (with_gap rec) elem delim allow_trailing (length erest) erest of
             None \<Rightarrow> OutOfFuel
           | Some (cs, rest) \<Rightarrow> Match (ecs @ cs) rest))"

text \<open>
  Modelled from the spec: \<open>Bracketed\<close> "requires the declared bracket-pair (by name,
  looked up in the dialect's bracket-pair-set table, which may be scoped)" and matches the
  interior between the opening and the closing bracket (section 4.3). A bracket type that
  the named set does not hold gives no match.
\<close>

definition match_bracketed ::
  "dialect \<Rightarrow> matcher \<Rightarrow> grammar \<Rightarrow> string \<Rightarrow> string \<Rightarrow> raw_segment list \<Rightarrow> match_outcome" where
  "match_bracketed d rec inner bracket_type bracket_pairs_set toks =
     (case find (\<lambda>(ty, start_ref, end_ref). ty = bracket_type) (bracket_sets d bracket_pairs_set) of
        None \<Rightarrow> NoMatch
      | Some (ty, start_ref, end_ref) \<Rightarrow>
          match_sequence rec [(Ref start_ref, False), (inner, False), (Ref end_ref, False)] toks)"

text \<open>
  Modelled from the spec: \<open>StartsWith\<close> scans "forward from an anchor token until a
  terminator grammar matches (respecting a whitespace must precede terminator policy),
  without parsing the scanned interior" (section 4.2): the scanned segments stay raw.
\<close>

fun scan_to_terminator ::
  "matcher \<Rightarrow> grammar \<Rightarrow> bool \<Rightarrow> bool \<Rightarrow> raw_segment list
     \<Rightarrow> (raw_segment list \<times> raw_segment list) option" where
  "scan_to_terminator rec terminator enforce after_ws [] = Some ([], [])"
| "scan_to_terminator rec terminator enforce after_ws (tok # others) =
     (case (if enforce \<and> \<not> after_ws then NoMatch else rec terminator (tok # others)) of
        OutOfFuel \<Rightarrow> None
      | Match cs rest \<Rightarrow> Some ([], tok # others)
      | NoMatch \<Rightarrow>
          (case scan_to_terminator rec terminator enforce (seg_class tok = WhitespaceSegment) others of
             None \<Rightarrow> None
           | Some (interior, rest) \<Rightarrow> Some (tok # interior, rest)))"

definition match_starts_with ::
  "matcher \<Rightarrow> grammar \<Rightarrow> grammar option \<Rightarrow> bool \<Rightarrow> raw_segment list \<Rightarrow> match_outcome" where
  "match_starts_with rec anchor terminator enforce toks =
     (case rec anchor toks of
        OutOfFuel \<Rightarrow> OutOfFuel
      | NoMatch \<Rightarrow> NoMatch
      | Match acs arest \<Rightarrow>
          (case terminator of
             None \<Rightarrow> Match (acs @ map RawSegment arest) []
           | Some t \<Rightarrow>
               (case scan_to_terminator rec t enforce False arest of
                  None \<Rightarrow> OutOfFuel
                | Some (interior, rest) \<Rightarrow> Match (acs @ map RawSegment interior) rest)))"

text \<open>
  Modelled from the spec: \<open>Ref\<close> "resolves its name against the currently active dialect"
  (section 4.3). For a segment rule the match grammar fixes the extent of the segment
  (match phase); its content is then decomposed by the parse grammar (parse phase), and
  what the parse grammar leaves over, or the whole content when it does not match, is
  wrapped as unparsable (section 4.5). A name the dialect does not have gives no match.
\<close>

definition match_ref :: "dialect \<Rightarrow> matcher \<Rightarrow> string \<Rightarrow> raw_segment list \<Rightarrow> match_outcome" where
  "match_ref d rec name toks =
     (case library d name of
        None \<Rightarrow> NoMatch
      | Some (GrammarEntry g) \<Rightarrow> rec g toks
      | Some (SegmentEntry ty mg parse_grammar) \<Rightarrow>
          (case rec mg toks of
             OutOfFuel \<Rightarrow> OutOfFuel
           | NoMatch \<Rightarrow> NoMatch
           | Match mcs mrest \<Rightarrow>
               (let n = length toks - length mrest;
                    content = take n toks
                in case parse_grammar of
                     None \<Rightarrow> Match [BaseSegment ty mcs] mrest
                   | Some pg \<Rightarrow>
                       (case rec pg content of
                          OutOfFuel \<Rightarrow> OutOfFuel
                        | NoMatch \<Rightarrow> Match [BaseSegment ty (unparsable content)] (drop n toks)
                        | Match pcs prest \<Rightarrow>
                            Match [BaseSegment ty (pcs @ unparsable prest)] (drop n toks)))))"

text \<open>
  Modelled from the spec: \<open>Indent\<close> and \<open>Dedent\<close> are "zero-width structural markers
  that carry no text" (section 3).
\<close>

definition meta_segment :: "string \<Rightarrow> segment" where
  "meta_segment ty = RawSegment \<lparr>seg_name = ty, seg_class = MetaSegment, raw = [], pos = 0\<rparr>"

text \<open>
  Modelled from the spec: one level of matching a grammar node; \<open>rec\<close> matches the nested
  grammars. \<open>Anything\<close> matches all that is left, \<open>Nothing\<close> never matches.
\<close>

fun match_step :: "regex_engine \<Rightarrow> dialect \<Rightarrow> matcher \<Rightarrow> matcher" where
  "match_step re d rec (Terminal t ty) toks = match_terminal re t ty toks"
| "match_step re d rec (Sequence children) toks = match_sequence rec children toks"
| "match_step re d rec (OneOf alternatives) toks = match_one_of rec alternatives toks"
| "match_step re d rec (Bracketed inner bracket_type bracket_pairs_set) toks =
     match_bracketed d rec inner bracket_type bracket_pairs_set toks"
| "match_step re d rec (Delimited elem delim allow_trailing) toks =
     match_delimited rec elem delim allow_trailing toks"
| "match_step re d rec (AnyNumberOf g min_times max_times) toks =
     match_any_number_of rec g min_times max_times toks"
| "match_step re d rec (StartsWith anchor terminator enforce) toks =
     match_starts_with rec anchor terminator enforce toks"
| "match_step re d rec (Ref name) toks = match_ref d rec name toks"
| "match_step re d rec Anything toks = Match (map RawSegment toks) []"
| "match_step re d rec Nothing toks = NoMatch"
| "match_step re d rec Indent toks = Match [meta_segment ''indent''] toks"
| "match_step re d rec Dedent toks = Match [meta_segment ''dedent''] toks"

text \<open>Matching with at most \<open>n\<close> levels of nested grammar applications.\<close>

primrec match_fuel :: "nat \<Rightarrow> regex_engine \<Rightarrow> dialect \<Rightarrow> matcher" where
  "match_fuel 0 re d = (\<lambda>g toks. OutOfFuel)"
| "match_fuel (Suc n) re d = match_step re d (match_fuel n re d)"

text \<open>
  Modelled from the spec: the driver (section 2): "raw text, lexer, flat raw-segment
  sequence, driver applies the dialect's root grammar", giving the final segment tree; what
  the root grammar does not cover is kept as unparsable.
\<close>

definition parse :: "nat \<Rightarrow> regex_engine \<Rightarrow> dialect \<Rightarrow> string \<Rightarrow> segment option" where
  "parse fuel re d text =
     (let toks = lex re (lexer_matchers d) 0 text
      in case match_fuel fuel re d (Ref (root_grammar d)) toks of
           OutOfFuel \<Rightarrow> None
         | NoMatch \<Rightarrow> Some (BaseSegment ''file'' (unparsable toks))
         | Match cs rest \<Rightarrow> Some (BaseSegment ''file'' (cs @ unparsable rest)))"

definition render :: "segment \<Rightarrow> string" where
  "render tree = raw_text tree"

text \<open>
  Two estimates read off the dialect alone. The first: every match of the grammar consumes
  at least one segment (looked at through at most \<open>n\<close> levels of the grammar; when in
  doubt, no).
\<close>

fun surely_consumes :: "nat \<Rightarrow> dialect \<Rightarrow> grammar \<Rightarrow> bool" where
  "surely_consumes 0 d g = False"
| "surely_consumes (Suc n) d (Terminal t ty) = True"
| "surely_consumes (Suc n) d (Sequence children) =
     (\<exists>c \<in> set children. \<not> snd c \<and> surely_consumes n d (fst c))"
| "surely_consumes (Suc n) d (OneOf alternatives) =
     (\<forall>g \<in> set alternatives. surely_consumes n d g)"
| "surely_consumes (Suc n) d (Bracketed inner bracket_type bracket_pairs_set) =
     (case find (\<lambda>(ty, start_ref, end_ref). ty = bracket_type) (bracket_sets d bracket_pairs_set) of
        None \<Rightarrow> True
      | Some (ty, start_ref, end_ref) \<Rightarrow>
          surely_consumes n d (Ref start_ref) \<or> surely_consumes n d inner
          \<or> surely_consumes n d (Ref end_ref))"
| "surely_consumes (Suc n) d (Delimited elem delim allow_trailing) = surely_consumes n d elem"
| "surely_consumes (Suc n) d (AnyNumberOf g min_times max_times) = (0 < min_times)"
| "surely_consumes (Suc n) d (StartsWith anchor terminator enforce) = surely_consumes n d anchor"
| "surely_consumes (Suc n) d (Ref name) =
     (case library d name of
        None \<Rightarrow> True
      | Some (GrammarEntry g) \<Rightarrow> surely_consumes n d g
      | Some (SegmentEntry ty mg parse_grammar) \<Rightarrow> surely_consumes n d mg)"
| "surely_consumes (Suc n) d Anything = False"
| "surely_consumes (Suc n) d Nothing = True"
| "surely_consumes (Suc n) d Indent = False"
| "surely_consumes (Suc n) d Dedent = False"

text \<open>
  The second: \<open>n\<close> levels of nested grammar applications are enough to match the
  grammar against at most \<open>k\<close> segments. What comes after an element that surely
  consumes (the later elements of a sequence, the delimiter of a list, the terminator of
  a scan) is matched against at most \<open>k - 1\<close> segments, so the estimate holds, for
  \<open>n\<close> large enough, also of grammars that refer to themselves behind such an element,
  as the \<open>DatatypeSegment\<close> of the BigQuery dialect does behind \<open>ARRAY <\<close>. It
  fails for every \<open>n\<close> when a grammar refers to itself with nothing consumed in
  between.
\<close>

fun covers_elements ::
  "(nat \<Rightarrow> grammar \<Rightarrow> bool) \<Rightarrow> (grammar \<Rightarrow> bool) \<Rightarrow> nat \<Rightarrow> (grammar \<times> bool) list \<Rightarrow> bool" where
  "covers_elements covers consuming k [] = True"
| "covers_elements covers consuming k ((g, optional) # children) =
     (covers k g
      \<and> (if consuming g
         then (k = 0 \<or> covers_elements covers consuming (k - 1) children)
              \<and> (if optional then covers_elements covers consuming k children else True)
         else covers_elements covers consuming k children))"

fun covers_step ::
  "dialect \<Rightarrow> (nat \<Rightarrow> grammar \<Rightarrow> bool) \<Rightarrow> (grammar \<Rightarrow> bool) \<Rightarrow> nat \<Rightarrow> grammar \<Rightarrow> bool" where
  "covers_step d covers consuming k (Terminal t ty) = True"
| "covers_step d covers consuming k (Sequence children) =
     covers_elements covers consuming k children"
| "covers_step d covers consuming k (OneOf alternatives) =
     (\<forall>g \<in> set alternatives. covers k g)"
| "covers_step d covers consuming k (Bracketed inner bracket_type bracket_pairs_set) =
     (case find (\<lambda>(ty, start_ref, end_ref). ty = bracket_type) (bracket_sets d bracket_pairs_set) of
        None \<Rightarrow> True
      | Some (ty, start_ref, end_ref) \<Rightarrow>
          covers_elements covers consuming k
            [(Ref start_ref, False), (inner, False), (Ref end_ref, False)])"
| "covers_step d covers consuming k (Delimited elem delim allow_trailing) =
     (covers k elem
      \<and> (if consuming elem then k = 0 \<or> covers (k - 1) delim else covers k delim))"
| "covers_step d covers consuming k (AnyNumberOf g min_times max_times) = covers k g"
| "covers_step d covers consuming k (StartsWith anchor terminator enforce) =
     (covers k anchor
      \<and> (case terminator of
           None \<Rightarrow> True
         | Some t \<Rightarrow> if consuming anchor then k = 0 \<or> covers (k - 1) t else covers k t))"
| "covers_step d covers consuming k (Ref name) =
     (case library d name of
        None \<Rightarrow> True
      | Some (GrammarEntry g) \<Rightarrow> covers k g
      | Some (SegmentEntry ty mg parse_grammar) \<Rightarrow>
          covers k mg \<and> (case parse_grammar of None \<Rightarrow> True | Some pg \<Rightarrow> covers k pg))"
| "covers_step d covers consuming k Anything = True"
| "covers_step d covers consuming k Nothing = True"
| "covers_step d covers consuming k Indent = True"
| "covers_step d covers consuming k Dedent = True"

primrec fuel_covers :: "nat \<Rightarrow> dialect \<Rightarrow> nat \<Rightarrow> grammar \<Rightarrow> bool" where
  "fuel_covers 0 d = (\<lambda>k g. False)"
| "fuel_covers (Suc n) d = covers_step d (fuel_covers n d) (surely_consumes n d)"

text \<open>Notions for the proofs: the texts of segments and tokens, and properties of the
  function that matches the nested grammars: it keeps the text, it leaves over no more
  than it was given, it consumes when it matches a grammar, it returns on a grammar
  and at most \<open>k\<close> segments, and another one gives the same outcome wherever it
  returns.\<close>

definition segs_text :: "segment list \<Rightarrow> string" where
  "segs_text cs = concat (map raw_text cs)"

definition toks_text :: "raw_segment list \<Rightarrow> string" where
  "toks_text toks = concat (map raw toks)"

definition lossless :: "matcher \<Rightarrow> bool" where
  "lossless rec =
     (\<forall>g toks cs rest. rec g toks = Match cs rest \<longrightarrow>
        segs_text cs @ toks_text rest = toks_text toks)"

definition shrinks :: "matcher \<Rightarrow> bool" where
  "shrinks rec =
     (\<forall>g toks cs rest. rec g toks = Match cs rest \<longrightarrow> length rest \<le> length toks)"

definition consumes :: "matcher \<Rightarrow> grammar \<Rightarrow> bool" where
  "consumes rec g =
     (\<forall>toks cs rest. rec g toks = Match cs rest \<longrightarrow> length rest < length toks)"

definition returns_upto :: "matcher \<Rightarrow> nat \<Rightarrow> grammar \<Rightarrow> bool" where
  "returns_upto rec k g = (\<forall>toks. length toks \<le> k \<longrightarrow> rec g toks \<noteq> OutOfFuel)"

definition extends :: "matcher \<Rightarrow> matcher \<Rightarrow> bool" where
  "extends rec rec' = (\<forall>g toks. rec g toks \<noteq> OutOfFuel \<longrightarrow> rec' g toks = rec g toks)"

text \<open>
  The \<open>i\<close>-th of a list of outcomes is the one to select: it is a match, no match
  consumes more, and every match before it consumes less.
\<close>

fun is_match :: "match_outcome \<Rightarrow> bool" where
  "is_match (Match cs rest) = True"
| "is_match NoMatch = False"
| "is_match OutOfFuel = False"

fun consumed_by :: "raw_segment list \<Rightarrow> match_outcome \<Rightarrow> nat" where
  "consumed_by toks (Match cs rest) = consumed toks rest"
| "consumed_by toks NoMatch = 0"
| "consumed_by toks OutOfFuel = 0"

definition selected :: "raw_segment list \<Rightarrow> match_outcome list \<Rightarrow> nat \<Rightarrow> bool" where
  "selected toks rs i =
     (i < length rs \<and> is_match (rs ! i)
      \<and> (\<forall>j < length rs. is_match (rs ! j) \<longrightarrow> consumed_by toks (rs ! j) \<le> consumed_by toks (rs ! i))
      \<and> (\<forall>j < i. is_match (rs ! j) \<longrightarrow> consumed_by toks (rs ! j) < consumed_by toks (rs ! i)))"

text \<open>
  A small dialect to run the engine on. Its \<open>DatatypeSegment\<close> and
  \<open>ParameterNameSegment\<close> are the ones of the BigQuery dialect (a keyword is the
  literal terminal of type keyword), and so is its set of angle bracket pairs; a statement
  is \<open>SELECT\<close> with a data type, and statements are separated by semicolons.
\<close>

definition example_dialect :: dialect where
  "example_dialect =
     \<lparr>dialect_name = ''example'',
      library = map_of
        [(''FileGrammar'', GrammarEntry
            (Delimited (Ref ''StatementSegment'') (Ref ''SemicolonSegment'') True)),
         (''StatementSegment'', SegmentEntry ''statement''
            (StartsWith (Ref ''SelectKeywordSegment'') (Some (Ref ''SemicolonSegment'')) False)
            (Some (Sequence [(Ref ''SelectKeywordSegment'', False),
                             (Ref ''DatatypeSegment'', False)]))),
         (''DatatypeSegment'', SegmentEntry ''data_type''
            (OneOf
              [Ref ''DatatypeIdentifierSegment'',
               Sequence [(Terminal (Literal ''ANY'') ''keyword'', False),
                         (Terminal (Literal ''TYPE'') ''keyword'', False)],
               Sequence [(Terminal (Literal ''ARRAY'') ''keyword'', False),
                         (Bracketed (Ref ''DatatypeSegment'') ''angle'' ''angle_bracket_pairs'',
                          False)],
               Sequence [(Terminal (Literal ''STRUCT'') ''keyword'', False),
                         (Bracketed
                            (Delimited
                               (Sequence [(Ref ''ParameterNameSegment'', False),
                                          (Ref ''DatatypeSegment'', False)])
                               (Ref ''CommaSegment'') False)
                            ''angle'' ''angle_bracket_pairs'', False)]])
            None),
         (''ParameterNameSegment'', GrammarEntry
            (OneOf [Terminal (Pattern ''[A-Z_][A-Z0-9_]*'') ''parameter'',
                    Terminal (Pattern ''`[^`]*`'') ''parameter''])),
         (''DatatypeIdentifierSegment'', GrammarEntry
            (Terminal (Literal ''INT'') ''data_type_identifier'')),
         (''SelectKeywordSegment'', GrammarEntry (Terminal (Literal ''SELECT'') ''keyword'')),
         (''SemicolonSegment'', GrammarEntry (Terminal (Literal '';'') ''semicolon'')),
         (''CommaSegment'', GrammarEntry (Terminal (Literal '','') ''comma'')),
         (''StartAngleBracketSegment'', GrammarEntry
            (Terminal (Literal ''<'') ''start_angle_bracket'')),
         (''EndAngleBracketSegment'', GrammarEntry
            (Terminal (Literal ''>'') ''end_angle_bracket''))],
      lexer_matchers =
        [StringLexer ''whitespace'' '' '' WhitespaceSegment,
         StringLexer ''semicolon'' '';'' CodeSegment,
         StringLexer ''comma'' '','' CodeSegment,
         StringLexer ''less_than'' ''<'' CodeSegment,
         StringLexer ''greater_than'' ''>'' CodeSegment,
         RegexLexer ''code'' ''[A-Z_][A-Z0-9_]*'' CodeSegment],
      bracket_sets = (\<lambda>name. if name = ''angle_bracket_pairs''
         then [(''angle'', ''StartAngleBracketSegment'', ''EndAngleBracketSegment'')] else []),
      root_grammar = ''FileGrammar''\<rparr>"

text \<open>A regex engine that knows the one pattern of the names in capital letters.\<close>

definition example_regex :: regex_engine where
  "example_regex pattern inp =
     (if pattern = ''[A-Z_][A-Z0-9_]*'' then
        (case inp of
           [] \<Rightarrow> 0
         | c # cs \<Rightarrow>
             if c \<in> set ''ABCDEFGHIJKLMNOPQRSTUVWXYZ_''
             then Suc (length (takeWhile
                    (\<lambda>c. c \<in> set ''ABCDEFGHIJKLMNOPQRSTUVWXYZ0123456789_'') cs))
             else 0)
      else 0)"

text \<open>
  The tree of \<open>SELECT ARRAY<STRUCT<A INT>>;SELECT ,;?\<close> in the example dialect: a
  statement with nested data types and the whitespace kept where it stood, a statement
  whose content the parse grammar does not match, and an unlexable character that the
  root grammar does not cover.
\<close>

definition example_tree :: segment where
  "example_tree =
     BaseSegment ''file''
      [BaseSegment ''statement''
        [RawSegment \<lparr>seg_name = ''keyword'', seg_class = CodeSegment, raw = ''SELECT'', pos = 0\<rparr>,
         RawSegment \<lparr>seg_name = ''whitespace'', seg_class = WhitespaceSegment, raw = '' '', pos = 6\<rparr>,
         BaseSegment ''data_type''
          [RawSegment \<lparr>seg_name = ''keyword'', seg_class = CodeSegment, raw = ''ARRAY'', pos = 7\<rparr>,
           RawSegment \<lparr>seg_name = ''start_angle_bracket'', seg_class = CodeSegment, raw = ''<'', pos = 12\<rparr>,
           BaseSegment ''data_type''
            [RawSegment \<lparr>seg_name = ''keyword'', seg_class = CodeSegment, raw = ''STRUCT'', pos = 13\<rparr>,
             RawSegment \<lparr>seg_name = ''start_angle_bracket'', seg_class = CodeSegment, raw = ''<'', pos = 19\<rparr>,
             RawSegment \<lparr>seg_name = ''parameter'', seg_class = CodeSegment, raw = ''A'', pos = 20\<rparr>,
             RawSegment \<lparr>seg_name = ''whitespace'', seg_class = WhitespaceSegment, raw = '' '', pos = 21\<rparr>,
             BaseSegment ''data_type''
              [RawSegment \<lparr>seg_name = ''data_type_identifier'', seg_class = CodeSegment, raw = ''INT'', pos = 22\<rparr>],
             RawSegment \<lparr>seg_name = ''end_angle_bracket'', seg_class = CodeSegment, raw = ''>'', pos = 25\<rparr>],
           RawSegment \<lparr>seg_name = ''end_angle_bracket'', seg_class = CodeSegment, raw = ''>'', pos = 26\<rparr>]],
       RawSegment \<lparr>seg_name = ''semicolon'', seg_class = CodeSegment, raw = '';'', pos = 27\<rparr>,
       BaseSegment ''statement''
        [BaseSegment ''unparsable''
          [RawSegment \<lparr>seg_name = ''code'', seg_class = CodeSegment, raw = ''SELECT'', pos = 28\<rparr>,
           RawSegment \<lparr>seg_name = ''whitespace'', seg_class = WhitespaceSegment, raw = '' '', pos = 34\<rparr>,
           RawSegment \<lparr>seg_name = ''comma'', seg_class = CodeSegment, raw = '','', pos = 35\<rparr>]],
       RawSegment \<lparr>seg_name = ''semicolon'', seg_class = CodeSegment, raw = '';'', pos = 36\<rparr>,
       BaseSegment ''unparsable''
        [RawSegment \<lparr>seg_name = ''unlexable'', seg_class = UnlexableSegment, raw = ''?'', pos = 37\<rparr>]]"

section \<open>Theorems\<close>

subsection \<open>The standard configuration options\<close>

lemma STANDARD_CONFIG_INFO_DICT_all_legal:
  "list_all (\<lambda>(k, e). legal_config_info e) STANDARD_CONFIG_INFO_DICT"
  by (simp add: STANDARD_CONFIG_INFO_DICT_def legal_config_info_def shape_count_def range_def)

text \<open>
  Claim C7. Every entry of \<open>STANDARD_CONFIG_INFO_DICT\<close> maps an option name to a record
  whose validator has exactly one of the three legal shapes (an enumerated list of strings,
  a bounded integer range, the boolean list \<open>[True, False]\<close>) and whose definition is a
  non-empty string.
\<close>

theorem standard_config_info_entries_legal:
  assumes "map_of STANDARD_CONFIG_INFO_DICT k = Some e"
  shows "(is_enumerated_strings (validation e) \<or> is_bounded_range (validation e)
            \<or> is_boolean_set (validation e))
         \<and> shape_count (validation e) = 1
         \<and> definition_text e \<noteq> []"
proof -
  from assms have "(k, e) \<in> set STANDARD_CONFIG_INFO_DICT"
    by (rule map_of_SomeD)
  with STANDARD_CONFIG_INFO_DICT_all_legal have "legal_config_info e"
    by (auto simp: list_all_iff)
  then show ?thesis
    by (auto simp: legal_config_info_def shape_count_def split: if_splits)
qed

theorem standard_config_info_entries_legal_witness:
  "map_of STANDARD_CONFIG_INFO_DICT ''max_line_length''
     = Some \<lparr>validation = PyRange 0 1000,
         definition_text = ''The maximum length of a line to allow without raising a violation''\<rparr>
   \<and> is_bounded_range (PyRange 0 1000)
   \<and> shape_count (PyRange 0 1000) = 1"
proof -
  have h: "map_of STANDARD_CONFIG_INFO_DICT ''max_line_length''
     = Some \<lparr>validation = PyRange 0 1000,
         definition_text = ''The maximum length of a line to allow without raising a violation''\<rparr>"
    by (simp add: STANDARD_CONFIG_INFO_DICT_def range_def)
  from standard_config_info_entries_legal [OF h] h show ?thesis
    by (simp add: shape_count_def)
qed


subsection \<open>The merged configuration dictionary\<close>

lemma foldl_update_map_of:
  "map_of (foldl (\<lambda>d (k, v). AList.update k v d) acc kvs) = map_of acc ++ map_of (rev kvs)"
proof (induction kvs arbitrary: acc)
  case Nil
  then show ?case by simp
next
  case (Cons kv kvs)
  obtain k v where kv: "kv = (k, v)" by (cases kv)
  show ?case
    by (simp add: Cons.IH kv update_conv' map_add_def fun_eq_iff split: option.splits)
qed

lemma foldl_update_distinct:
  "distinct (map fst acc) \<Longrightarrow>
   distinct (map fst (foldl (\<lambda>d (k, v). AList.update k v d) acc kvs))"
  by (induction kvs arbitrary: acc) (auto simp: distinct_update)

lemma map_of_rev_distinct:
  assumes "distinct (map fst d)"
  shows "map_of (rev d) = map_of d"
proof -
  have "distinct (map fst (rev d))" using assms by (simp add: rev_map [symmetric])
  with assms show ?thesis by (simp add: map_of_inject_set)
qed

lemma map_of_get_config_info:
  "map_of (get_config_info cs) = map_of (rev (concat cs))"
  by (simp add: get_config_info_def dict_comprehension_def foldl_update_map_of)

lemma keys_get_config_info:
  "keys (get_config_info cs) = (\<Union>d \<in> set cs. keys d)"
proof -
  have "keys (get_config_info cs) = dom (map_of (get_config_info cs))"
    by (simp add: keys_def dom_map_of_conv_image_fst)
  also have "\<dots> = fst ` set (concat cs)"
    by (simp add: map_of_get_config_info dom_map_of_conv_image_fst)
  also have "\<dots> = (\<Union>d \<in> set cs. keys d)"
    by (auto simp: keys_def)
  finally show ?thesis .
qed

lemma latest_wins:
  assumes "\<forall>d \<in> set cs. distinct (map fst d)"
    and "i < length cs" and "k \<in> keys (cs ! i)"
    and "\<forall>j. i < j \<and> j < length cs \<longrightarrow> k \<notin> keys (cs ! j)"
  shows "map_of (rev (concat cs)) k = map_of (cs ! i) k"
  using assms
proof (induction cs arbitrary: i rule: rev_induct)
  case Nil
  then show ?case by simp
next
  case (snoc d cs)
  have dd: "distinct (map fst d)" using snoc.prems(1) by simp
  have eq: "map_of (rev (concat (cs @ [d]))) k = (map_of (rev (concat cs)) ++ map_of d) k"
    by (simp add: map_of_rev_distinct [OF dd])
  show ?case
  proof (cases "i = length cs")
    case True
    with snoc.prems(3) have "k \<in> dom (map_of d)"
      by (simp add: keys_def dom_map_of_conv_image_fst)
    then obtain v where "map_of d k = Some v" by blast
    with eq True show ?thesis by (simp add: map_add_def)
  next
    case False
    with snoc.prems(2) have i: "i < length cs" by simp
    from snoc.prems(4) i have "k \<notin> keys ((cs @ [d]) ! length cs)"
      by (metis length_append_singleton lessI)
    then have "map_of d k = None"
      by (simp add: keys_def map_of_eq_None_iff)
    moreover have "map_of (rev (concat cs)) k = map_of (cs ! i) k"
    proof (rule snoc.IH [OF _ i])
      show "\<forall>d\<in>set cs. distinct (map fst d)" using snoc.prems(1) by simp
      show "k \<in> keys (cs ! i)" using snoc.prems(3) i by (simp add: nth_append)
      show "\<forall>j. i < j \<and> j < length cs \<longrightarrow> k \<notin> keys (cs ! j)"
      proof (intro allI impI)
        fix j assume j: "i < j \<and> j < length cs"
        then have "k \<notin> keys ((cs @ [d]) ! j)" using snoc.prems(4) by simp
        with j show "k \<notin> keys (cs ! j)" by (simp add: nth_append)
      qed
    qed
    ultimately show ?thesis using eq i by (simp add: map_add_def nth_append)
  qed
qed

text \<open>
  Claim C10. For plugin dictionaries (each with distinct keys, as every Python dictionary
  has), the dictionary \<open>get_config_info\<close> returns has as its key set exactly the union of
  their key sets, holds each key once, and maps a key to the value it has in the last
  dictionary of the hook's result list that contains it.
\<close>

theorem get_config_info_union_latest_wins:
  assumes "\<forall>d \<in> set configs_info. distinct (map fst d)"
  shows "keys (get_config_info configs_info) = (\<Union>d \<in> set configs_info. keys d)
    \<and> distinct (map fst (get_config_info configs_info))
    \<and> (\<forall>i k. i < length configs_info \<and> k \<in> keys (configs_info ! i)
           \<and> (\<forall>j. i < j \<and> j < length configs_info \<longrightarrow> k \<notin> keys (configs_info ! j))
         \<longrightarrow> map_of (get_config_info configs_info) k = map_of (configs_info ! i) k)"
proof (intro conjI allI impI)
  show "keys (get_config_info configs_info) = (\<Union>d \<in> set configs_info. keys d)"
    by (rule keys_get_config_info)
  show "distinct (map fst (get_config_info configs_info))"
    by (simp add: get_config_info_def dict_comprehension_def foldl_update_distinct)
next
  fix i k
  assume "i < length configs_info \<and> k \<in> keys (configs_info ! i)
           \<and> (\<forall>j. i < j \<and> j < length configs_info \<longrightarrow> k \<notin> keys (configs_info ! j))"
  with assms show "map_of (get_config_info configs_info) k = map_of (configs_info ! i) k"
    by (simp add: map_of_get_config_info latest_wins)
qed

theorem get_config_info_union_latest_wins_witness:
  "distinct (map fst [(''a'', 1::int), (''b'', 2)])
   \<and> distinct (map fst [(''c'', 3::int), (''a'', 4)])
   \<and> get_config_info [[(''a'', 1::int), (''b'', 2)], [(''c'', 3), (''a'', 4)]]
       = [(''a'', 4), (''b'', 2), (''c'', 3)]
   \<and> keys (get_config_info [[(''a'', 1::int), (''b'', 2)], [(''c'', 3), (''a'', 4)]])
       = {''a'', ''b'', ''c''}
   \<and> map_of (get_config_info [[(''a'', 1::int), (''b'', 2)], [(''c'', 3), (''a'', 4)]]) ''a''
       = Some 4"
proof -
  let ?cs = "[[(''a'', 1::int), (''b'', 2)], [(''c'', 3), (''a'', 4)]]"
  have h: "\<forall>d \<in> set ?cs. distinct (map fst d)" by simp
  have v: "get_config_info ?cs = [(''a'', 4), (''b'', 2), (''c'', 3)]"
    by (simp add: get_config_info_def dict_comprehension_def)
  note t = get_config_info_union_latest_wins [OF h]
  from t have "keys (get_config_info ?cs) = (\<Union>d \<in> set ?cs. keys d)" by blast
  then have k: "keys (get_config_info ?cs) = {''a'', ''b'', ''c''}"
    by (auto simp: keys_def)
  have "(1::nat) < length ?cs \<and> ''a'' \<in> keys (?cs ! 1)
      \<and> (\<forall>j. 1 < j \<and> j < length ?cs \<longrightarrow> ''a'' \<notin> keys (?cs ! j))"
    by (simp add: keys_def)
  with t have "map_of (get_config_info ?cs) ''a'' = map_of (?cs ! 1) ''a''" by blast
  then have a: "map_of (get_config_info ?cs) ''a'' = Some 4" by simp
  from v k a show ?thesis by simp
qed

subsection \<open>Possible references of a column reference\<close>

text \<open>
  Claim C8. Members of a Python enumeration have pairwise different values. For a column
  reference with at least three reference parts, \<open>extract_possible_references\<close> returns
  the first part at SCHEMA level, the first and second part at TABLE level, and the second
  and third part at OBJECT level. With fewer than three parts, or at a level that is none
  of the three, it returns what the base class returns for the converted level.
\<close>

theorem column_reference_extract_possible_references:
  assumes "distinct [level_value self OBJECT, level_value self TABLE, level_value self SCHEMA]"
  shows "(length (raw_references self) \<ge> 3 \<longrightarrow>
            (level_to_int self level = level_value self SCHEMA \<longrightarrow>
               extract_possible_references self level = [raw_references self ! 0])
          \<and> (level_to_int self level = level_value self TABLE \<longrightarrow>
               extract_possible_references self level
                 = [raw_references self ! 0, raw_references self ! 1])
          \<and> (level_to_int self level = level_value self OBJECT \<longrightarrow>
               extract_possible_references self level
                 = [raw_references self ! 1, raw_references self ! 2]))
       \<and> (length (raw_references self) < 3
            \<or> level_to_int self level \<notin> level_value self ` {OBJECT, TABLE, SCHEMA} \<longrightarrow>
           extract_possible_references self level
             = super_extract_possible_references self (level_to_int self level))"
  using assms by (auto simp: extract_possible_references_def Let_def)

theorem column_reference_extract_possible_references_witness:
  "distinct [(\<lambda>l. case l of OBJECT \<Rightarrow> (1::int) | TABLE \<Rightarrow> 2 | SCHEMA \<Rightarrow> 3) OBJECT,
             (\<lambda>l. case l of OBJECT \<Rightarrow> (1::int) | TABLE \<Rightarrow> 2 | SCHEMA \<Rightarrow> 3) TABLE,
             (\<lambda>l. case l of OBJECT \<Rightarrow> (1::int) | TABLE \<Rightarrow> 2 | SCHEMA \<Rightarrow> 3) SCHEMA]
   \<and> extract_possible_references
        \<lparr>level_to_int = (\<lambda>i. i),
         level_value = (\<lambda>l. case l of OBJECT \<Rightarrow> (1::int) | TABLE \<Rightarrow> 2 | SCHEMA \<Rightarrow> 3),
         raw_references = [''project'', ''dataset'', ''col''],
         super_extract_possible_references = (\<lambda>i. [])\<rparr> 2
       = [''project'', ''dataset'']"
proof -
  let ?v = "\<lambda>l. case l of OBJECT \<Rightarrow> (1::int) | TABLE \<Rightarrow> 2 | SCHEMA \<Rightarrow> 3"
  let ?self = "\<lparr>level_to_int = (\<lambda>i::int. i), level_value = ?v,
         raw_references = [''project'', ''dataset'', ''col''],
         super_extract_possible_references = (\<lambda>i. [])\<rparr>"
  have h: "distinct [level_value ?self OBJECT, level_value ?self TABLE, level_value ?self SCHEMA]"
    by simp
  from column_reference_extract_possible_references [OF h, of 2] show ?thesis
    by simp
qed

subsection \<open>Reference parts of a hyphenated object reference\<close>

lemma split_at_Cons:
  "split_at sep (x # xs) =
     (if sep x then [] # split_at sep xs
      else (x # hd (split_at sep xs)) # tl (split_at sep xs))"
  by (simp add: split_at_def)

lemma split_at_Nil: "split_at sep [] = [[]]"
  by (simp add: split_at_def)

lemma split_at_unfold:
  "split_at sep xs =
     takeWhile (\<lambda>y. \<not> sep y) xs
       # (case dropWhile (\<lambda>y. \<not> sep y) xs of [] \<Rightarrow> [] | d # rest \<Rightarrow> split_at sep rest)"
  by (induction xs) (auto simp: split_at_Cons split_at_Nil)

lemma runs_Nil: "dot_separated_runs sep [] = []"
  by (simp add: dot_separated_runs_def split_at_Nil)

lemma runs_dot: "sep x \<Longrightarrow> dot_separated_runs sep (x # xs) = dot_separated_runs sep xs"
  by (simp add: dot_separated_runs_def split_at_Cons)

lemma runs_drop_dots:
  "dot_separated_runs sep (dropWhile sep xs) = dot_separated_runs sep xs"
  by (induction xs) (simp_all add: runs_dot)

lemma runs_non_dot:
  assumes "\<not> sep x"
  shows "dot_separated_runs sep (x # xs) =
     (x # takeWhile (\<lambda>y. \<not> sep y) xs) # dot_separated_runs sep (dropWhile (\<lambda>y. \<not> sep y) xs)"
proof -
  have u: "split_at sep (x # xs) =
      (x # takeWhile (\<lambda>y. \<not> sep y) xs)
        # (case dropWhile (\<lambda>y. \<not> sep y) xs of [] \<Rightarrow> [] | d # rest \<Rightarrow> split_at sep rest)"
    using assms by (subst split_at_unfold) simp
  show ?thesis
  proof (cases "dropWhile (\<lambda>y. \<not> sep y) xs")
    case Nil
    show ?thesis unfolding dot_separated_runs_def u Nil
      by (simp add: split_at_Nil)
  next
    case (Cons d rest)
    then have "sep d" by (metis dropWhile_eq_Cons_conv)
    then have "split_at sep (d # rest) = [] # split_at sep rest"
      by (simp add: split_at_Cons)
    then show ?thesis unfolding dot_separated_runs_def u Cons
      by simp
  qed
qed


lemma non_dot_groups_eq_runs:
  "non_dot_groups sep xs = dot_separated_runs sep xs"
proof (induction sep xs rule: groupby.induct)
  case (1 key)
  then show ?case by (simp add: non_dot_groups_def runs_Nil)
next
  case (2 key x xs)
  show ?case
  proof (cases "key x")
    case True
    then have "non_dot_groups key (x # xs) = non_dot_groups key (dropWhile key xs)"
      by (simp add: non_dot_groups_def)
    also have "\<dots> = dot_separated_runs key (dropWhile key xs)"
      using 2 True by simp
    finally show ?thesis using True by (simp add: runs_dot runs_drop_dots)
  next
    case False
    then have "non_dot_groups key (x # xs) =
        (x # takeWhile (\<lambda>y. \<not> key y) xs) # non_dot_groups key (dropWhile (\<lambda>y. \<not> key y) xs)"
      by (simp add: non_dot_groups_def)
    also have "non_dot_groups key (dropWhile (\<lambda>y. \<not> key y) xs)
        = dot_separated_runs key (dropWhile (\<lambda>y. \<not> key y) xs)"
      using 2 False by simp
    finally show ?thesis using False by (simp add: runs_non_dot)
  qed
qed

lemma iter_raw_references_groups:
  "iter_raw_references is_type raw_trimmed crawl =
     map (\<lambda>run. ObjectReferencePart (concat (map raw_trimmed run)) run)
       (non_dot_groups (\<lambda>e. is_type e ''dot'') crawl)"
proof -
  have "concat (map (\<lambda>(is_dot, elems).
        if \<not> is_dot then [ObjectReferencePart (concat (map raw_trimmed elems)) elems] else []) gs)
    = map (\<lambda>run. ObjectReferencePart (concat (map raw_trimmed run)) run)
        (map snd (filter (\<lambda>(d, es). \<not> d) gs))" for gs :: "(bool \<times> 'a list) list"
    by (induction gs) auto
  then show ?thesis
    by (simp add: iter_raw_references_def non_dot_groups_def)
qed

lemma runs_no_dot:
  "run \<in> set (dot_separated_runs sep xs) \<Longrightarrow> run \<noteq> [] \<and> (\<forall>s \<in> set run. \<not> sep s)"
proof (induction "length xs" arbitrary: xs rule: less_induct)
  case less
  show ?case
  proof (cases xs)
    case Nil
    with less.prems show ?thesis by (simp add: runs_Nil)
  next
    case (Cons x xs')
    show ?thesis
    proof (cases "sep x")
      case True
      with less.prems Cons have "run \<in> set (dot_separated_runs sep xs')"
        by (simp add: runs_dot)
      moreover have "length xs' < length xs" using Cons by simp
      ultimately show ?thesis using less.hyps by blast
    next
      case False
      have len: "length (dropWhile (\<lambda>y. \<not> sep y) xs') < length xs"
        using Cons by (simp add: length_dropWhile_le less_Suc_eq_le)
      from less.prems Cons False
      consider "run = x # takeWhile (\<lambda>y. \<not> sep y) xs'"
        | "run \<in> set (dot_separated_runs sep (dropWhile (\<lambda>y. \<not> sep y) xs'))"
        by (auto simp: runs_non_dot)
      then show ?thesis
      proof cases
        case 1
        then show ?thesis using False by (auto dest: set_takeWhileD)
      next
        case 2
        then show ?thesis using less.hyps [OF len] by blast
      qed
    qed
  qed
qed


lemma filter_take_drop:
  "filter (\<lambda>s. \<not> sep s) xs =
     takeWhile (\<lambda>y. \<not> sep y) xs @ filter (\<lambda>s. \<not> sep s) (dropWhile (\<lambda>y. \<not> sep y) xs)"
  by (induction xs) simp_all

lemma concat_runs:
  "concat (dot_separated_runs sep xs) = filter (\<lambda>s. \<not> sep s) xs"
proof (induction "length xs" arbitrary: xs rule: less_induct)
  case less
  show ?case
  proof (cases xs)
    case Nil
    then show ?thesis by (simp add: runs_Nil)
  next
    case (Cons x xs')
    show ?thesis
    proof (cases "sep x")
      case True
      have "length xs' < length xs" using Cons by simp
      then have "concat (dot_separated_runs sep xs') = filter (\<lambda>s. \<not> sep s) xs'"
        by (rule less.hyps)
      then show ?thesis using True Cons by (simp add: runs_dot)
    next
      case False
      have len: "length (dropWhile (\<lambda>y. \<not> sep y) xs') < length xs"
        using Cons by (simp add: length_dropWhile_le less_Suc_eq_le)
      have "concat (dot_separated_runs sep xs)
          = (x # takeWhile (\<lambda>y. \<not> sep y) xs')
              @ concat (dot_separated_runs sep (dropWhile (\<lambda>y. \<not> sep y) xs'))"
        using False Cons by (simp add: runs_non_dot)
      also have "\<dots> = (x # takeWhile (\<lambda>y. \<not> sep y) xs')
              @ filter (\<lambda>s. \<not> sep s) (dropWhile (\<lambda>y. \<not> sep y) xs')"
        by (simp only: less.hyps [OF len])
      also have "\<dots> = x # filter (\<lambda>s. \<not> sep s) xs'"
        by (simp only: append_Cons filter_take_drop [symmetric])
      also have "\<dots> = filter (\<lambda>s. \<not> sep s) xs"
        using False Cons by simp
      finally show ?thesis .
    qed
  qed
qed


text \<open>
  Claim C9. The parts \<open>iter_raw_references\<close> yields are, in order, one part per maximal
  dot-free run of the crawled identifier, binary-operator and dot segments; the string of
  a part is the concatenation of the trimmed raw texts of its run. No part is empty or
  holds a dot segment, the parts together hold exactly the non-dot segments in order, and
  a crawl without any dot (such as the three segments of \<open>table-a\<close>) gives a single part.
\<close>

theorem hyphenated_iter_raw_references_runs:
  "iter_raw_references is_type raw_trimmed crawl =
     map (\<lambda>run. ObjectReferencePart (concat (map raw_trimmed run)) run)
       (dot_separated_runs (\<lambda>e. is_type e ''dot'') crawl)
   \<and> (\<forall>p \<in> set (iter_raw_references is_type raw_trimmed crawl).
         segments p \<noteq> [] \<and> (\<forall>s \<in> set (segments p). \<not> is_type s ''dot'')
         \<and> part p = concat (map raw_trimmed (segments p)))
   \<and> concat (map segments (iter_raw_references is_type raw_trimmed crawl))
       = filter (\<lambda>s. \<not> is_type s ''dot'') crawl
   \<and> (crawl \<noteq> [] \<and> (\<forall>s \<in> set crawl. \<not> is_type s ''dot'') \<longrightarrow>
        iter_raw_references is_type raw_trimmed crawl
          = [ObjectReferencePart (concat (map raw_trimmed crawl)) crawl])"
proof -
  let ?dot = "\<lambda>e. is_type e ''dot''"
  let ?mk = "\<lambda>run. ObjectReferencePart (concat (map raw_trimmed run)) run"
  have eq: "iter_raw_references is_type raw_trimmed crawl = map ?mk (dot_separated_runs ?dot crawl)"
    by (simp only: iter_raw_references_groups non_dot_groups_eq_runs)
  have a: "\<forall>p \<in> set (iter_raw_references is_type raw_trimmed crawl).
         segments p \<noteq> [] \<and> (\<forall>s \<in> set (segments p). \<not> is_type s ''dot'')
         \<and> part p = concat (map raw_trimmed (segments p))"
  proof
    fix p assume "p \<in> set (iter_raw_references is_type raw_trimmed crawl)"
    then obtain run where r: "run \<in> set (dot_separated_runs ?dot crawl)" and p: "p = ?mk run"
      unfolding eq by auto
    from runs_no_dot [OF r] p show "segments p \<noteq> [] \<and> (\<forall>s \<in> set (segments p). \<not> is_type s ''dot'')
         \<and> part p = concat (map raw_trimmed (segments p))"
      by simp
  qed
  have "map segments (map ?mk (dot_separated_runs ?dot crawl)) = dot_separated_runs ?dot crawl"
    by (simp add: comp_def)
  then have b: "concat (map segments (iter_raw_references is_type raw_trimmed crawl))
       = filter (\<lambda>s. \<not> is_type s ''dot'') crawl"
    unfolding eq by (simp only: concat_runs)
  have c: "iter_raw_references is_type raw_trimmed crawl = [?mk crawl]"
    if ne: "crawl \<noteq> []" and nd: "\<forall>s \<in> set crawl. \<not> is_type s ''dot''"
  proof -
    from ne obtain x xs where x: "crawl = x # xs" by (cases crawl) auto
    with nd have nx: "\<not> ?dot x" and nxs: "\<forall>s \<in> set xs. \<not> ?dot s" by simp_all
    from nxs have t: "takeWhile (\<lambda>y. \<not> ?dot y) xs = xs" and d: "dropWhile (\<lambda>y. \<not> ?dot y) xs = []"
      by simp_all
    have "dot_separated_runs ?dot crawl = [crawl]"
      unfolding x runs_non_dot [of ?dot, OF nx] t d by (simp add: runs_Nil)
    with eq show ?thesis by simp
  qed
  from eq a b c show ?thesis by blast
qed

theorem hyphenated_iter_raw_references_runs_witness:
  "iter_raw_references (\<lambda>e t. fst e = t) snd
      [(''identifier'', ''project''), (''dot'', ''.''), (''identifier'', ''table''),
       (''binary_operator'', ''-''), (''identifier'', ''a'')]
     = [ObjectReferencePart ''project'' [(''identifier'', ''project'')],
        ObjectReferencePart ''table-a'' [(''identifier'', ''table''),
          (''binary_operator'', ''-''), (''identifier'', ''a'')]]
   \<and> dot_separated_runs (\<lambda>e. fst e = ''dot'')
      [(''identifier'', ''project''), (''dot'', ''.''), (''identifier'', ''table''),
       (''binary_operator'', ''-''), (''identifier'', ''a'')]
     = [[(''identifier'', ''project'')],
        [(''identifier'', ''table''), (''binary_operator'', ''-''), (''identifier'', ''a'')]]"
proof -
  let ?crawl = "[(''identifier'', ''project''), (''dot'', ''.''), (''identifier'', ''table''),
       (''binary_operator'', ''-''), (''identifier'', ''a'')]"
  have r: "dot_separated_runs (\<lambda>e. fst e = ''dot'') ?crawl
     = [[(''identifier'', ''project'')],
        [(''identifier'', ''table''), (''binary_operator'', ''-''), (''identifier'', ''a'')]]"
    by (simp add: dot_separated_runs_def split_at_def)
  from hyphenated_iter_raw_references_runs [of "\<lambda>e t. fst e = t" snd ?crawl]
  have "iter_raw_references (\<lambda>e t. fst e = t) snd ?crawl =
     map (\<lambda>run. ObjectReferencePart (concat (map snd run)) run)
       (dot_separated_runs (\<lambda>e. fst e = ''dot'') ?crawl)"
    by blast
  with r show ?thesis by simp
qed

subsection \<open>Lexing in matcher order\<close>

lemma first_match_skip:
  assumes "\<forall>m \<in> set pre. match_length re m text = 0"
  shows "first_match re (pre @ ms) text = first_match re ms text"
  using assms by (induction pre) simp_all

lemma first_match_in_order:
  assumes "\<forall>m' \<in> set pre. match_length re m' text = 0" and "0 < match_length re m text"
  shows "first_match re (pre @ m # post) text = Some (m, match_length re m text)"
  using assms by (simp add: first_match_skip)

lemma insert_before_anchor:
  assumes "lexer_name a = before" and "before \<notin> lexer_name ` set pre"
  shows "insert_lexer_matchers new before (pre @ a # post) = Some (pre @ new @ a # post)"
proof -
  have np: "\<And>x. x \<in> set pre \<Longrightarrow> lexer_name x \<noteq> before"
    using assms(2) by force
  have t: "takeWhile (\<lambda>m. lexer_name m \<noteq> before) (pre @ a # post) = pre"
    using assms(1) np by (simp add: takeWhile_append2)
  have d: "dropWhile (\<lambda>m. lexer_name m \<noteq> before) (pre @ a # post) = a # post"
    using assms(1) np by (simp add: dropWhile_append2)
  show ?thesis using assms(1) by (simp add: insert_lexer_matchers_def t d)
qed

lemma split_at_anchor:
  assumes "before \<in> lexer_name ` set ms"
  shows "\<exists>pre a post. ms = pre @ a # post \<and> lexer_name a = before
           \<and> before \<notin> lexer_name ` set pre"
proof -
  let ?P = "\<lambda>m. lexer_name m \<noteq> before"
  from assms have "dropWhile ?P ms \<noteq> []" by auto
  then obtain a post where d: "dropWhile ?P ms = a # post" by (cases "dropWhile ?P ms") auto
  then have "lexer_name a = before" by (metis (mono_tags, lifting) hd_dropWhile list.sel(1) list.simps(3))
  moreover have "ms = takeWhile ?P ms @ a # post" using d by (metis takeWhile_dropWhile_id)
  moreover have "before \<notin> lexer_name ` set (takeWhile ?P ms)" by (auto dest: set_takeWhileD)
  ultimately show ?thesis by blast
qed


lemma patch_append:
  "patch_lexer_matchers p (xs @ ys) = patch_lexer_matchers p xs @ patch_lexer_matchers p ys"
  by (simp add: patch_lexer_matchers_def)

lemma patch_keeps_other:
  "lexer_name m \<notin> lexer_name ` set p \<Longrightarrow> patch_lexer_matchers p [m] = [m]"
proof -
  assume "lexer_name m \<notin> lexer_name ` set p"
  then have "find (\<lambda>q. lexer_name q = lexer_name m) p = None"
    by (induction p) auto
  then show ?thesis by (simp add: patch_lexer_matchers_def)
qed

lemma patch_names:
  "map lexer_name (patch_lexer_matchers p ms) = map lexer_name ms"
proof -
  have "lexer_name (case find (\<lambda>q. lexer_name q = lexer_name m) p of Some q \<Rightarrow> q | None \<Rightarrow> m)
      = lexer_name m" for m
    by (auto split: option.splits dest: find_Some_iff [THEN iffD1])
  then show ?thesis by (simp add: patch_lexer_matchers_def)
qed

lemma lex_single:
  assumes "first_match re ms inp = Some (m, length inp)"
  shows "lex re ms p inp =
     [\<lparr>seg_name = lexer_name m, seg_class = lexer_class m, raw = inp, pos = p\<rparr>]"
proof -
  from first_match_bounds [OF assms] have "inp \<noteq> []" by auto
  then show ?thesis using assms
    by (subst lex.simps) (simp add: lex.simps [of _ _ _ "[]"])
qed

lemma lex_lossless: "concat (map raw (lex re ms p inp)) = inp"
proof (induction re ms p inp rule: lex.induct)
  case (1 re ms p inp)
  show ?case
  proof (cases "inp = []")
    case True
    then show ?thesis by (simp add: lex.simps)
  next
    case False
    show ?thesis
    proof (cases "first_match re ms inp")
      case None
      have "concat (map raw (lex re ms (p + 1) (drop 1 inp))) = drop 1 inp"
        using False None by (rule 1(1))
      with False None show ?thesis
        by (subst lex.simps) (simp add: append_take_drop_id [of "Suc 0" inp])
    next
      case (Some mn)
      obtain m n where mn: "mn = (m, n)" by (cases mn)
      have "concat (map raw (lex re ms (p + n) (drop n inp))) = drop n inp"
        using False Some mn [symmetric] by (rule 1(2))
      with False Some mn show ?thesis
        by (subst lex.simps) simp
    qed
  qed
qed

lemma bigquery_lexer_matchers_shape:
  assumes "ansi = pre @ eq # post" and "lexer_name eq = ''equals''"
    and "''equals'' \<notin> lexer_name ` set pre"
  shows "bigquery_lexer_matchers ansi =
     Some (patch_lexer_matchers
             [RegexLexer ''single_quote'' single_quote_pattern CodeSegment,
              RegexLexer ''double_quote'' double_quote_pattern CodeSegment] pre
           @ StringLexer ''right_arrow'' ''=>'' CodeSegment # eq
           # patch_lexer_matchers
             [RegexLexer ''single_quote'' single_quote_pattern CodeSegment,
              RegexLexer ''double_quote'' double_quote_pattern CodeSegment] post)"
proof -
  let ?p = "[RegexLexer ''single_quote'' single_quote_pattern CodeSegment,
              RegexLexer ''double_quote'' double_quote_pattern CodeSegment]"
  let ?arrow = "StringLexer ''right_arrow'' ''=>'' CodeSegment"
  have ins: "insert_lexer_matchers [?arrow] ''equals'' ansi = Some (pre @ [?arrow] @ eq # post)"
    unfolding assms(1) using assms(2,3) by (rule insert_before_anchor)
  have a: "patch_lexer_matchers ?p [?arrow] = [?arrow]"
    by (rule patch_keeps_other) simp
  have e: "patch_lexer_matchers ?p [eq] = [eq]"
    by (rule patch_keeps_other) (simp add: assms(2))
  have "patch_lexer_matchers ?p (pre @ [?arrow] @ [eq] @ post)
      = patch_lexer_matchers ?p pre @ [?arrow] @ [eq] @ patch_lexer_matchers ?p post"
    by (simp only: patch_append a e)
  then show ?thesis
    by (simp add: bigquery_lexer_matchers_def ins)
qed

text \<open>
  Claim C6. The lexer takes, at a position, the first matcher of the list that matches
  there; \<open>insert_lexer_matchers\<close> puts the new matchers immediately before the anchor.
  When the parent's list has a matcher named \<open>equals\<close>, the BigQuery list has
  \<open>right_arrow\<close> immediately before it, and, when no matcher before them matches at
  \<open>=>\<close>, that input is lexed as the single code segment \<open>right_arrow\<close>.
\<close>

theorem bigquery_right_arrow_lexed_first:
  assumes "''equals'' \<in> lexer_name ` set ansi_lexer_matchers"
  shows "(\<forall>pre m post inp. (\<forall>m' \<in> set pre. match_length re m' inp = 0) \<and> 0 < match_length re m inp
            \<longrightarrow> first_match re (pre @ m # post) inp = Some (m, match_length re m inp))
    \<and> (\<forall>new before pre a post. lexer_name a = before \<and> before \<notin> lexer_name ` set pre
            \<longrightarrow> insert_lexer_matchers new before (pre @ a # post) = Some (pre @ new @ a # post))
    \<and> (\<exists>pre eq post.
          bigquery_lexer_matchers ansi_lexer_matchers
            = Some (pre @ StringLexer ''right_arrow'' ''=>'' CodeSegment # eq # post)
        \<and> lexer_name eq = ''equals'' \<and> eq \<in> set ansi_lexer_matchers
        \<and> ''equals'' \<notin> lexer_name ` set pre
        \<and> map lexer_name (pre @ eq # post) = map lexer_name ansi_lexer_matchers
        \<and> ((\<forall>m \<in> set pre. match_length re m ''=>'' = 0) \<longrightarrow>
             lex re (pre @ StringLexer ''right_arrow'' ''=>'' CodeSegment # eq # post) 0 ''=>''
               = [\<lparr>seg_name = ''right_arrow'', seg_class = CodeSegment, raw = ''=>'', pos = 0\<rparr>]))"
proof (intro conjI allI impI)
  fix pre m post inp
  assume "(\<forall>m' \<in> set pre. match_length re m' inp = 0) \<and> 0 < match_length re m inp"
  then show "first_match re (pre @ m # post) inp = Some (m, match_length re m inp)"
    by (simp add: first_match_in_order)
next
  fix new before pre a post
  assume "lexer_name a = before \<and> before \<notin> lexer_name ` set pre"
  then show "insert_lexer_matchers new before (pre @ a # post) = Some (pre @ new @ a # post)"
    by (simp add: insert_before_anchor)
next
  let ?p = "[RegexLexer ''single_quote'' single_quote_pattern CodeSegment,
              RegexLexer ''double_quote'' double_quote_pattern CodeSegment]"
  let ?arrow = "StringLexer ''right_arrow'' ''=>'' CodeSegment"
  from split_at_anchor [OF assms] obtain pre0 eq post0
    where sp: "ansi_lexer_matchers = pre0 @ eq # post0" and eq: "lexer_name eq = ''equals''"
      and np: "''equals'' \<notin> lexer_name ` set pre0"
    by blast
  let ?pre = "patch_lexer_matchers ?p pre0" and ?post = "patch_lexer_matchers ?p post0"
  have 1: "bigquery_lexer_matchers ansi_lexer_matchers = Some (?pre @ ?arrow # eq # ?post)"
    using sp eq np by (rule bigquery_lexer_matchers_shape)
  have 2: "eq \<in> set ansi_lexer_matchers" using sp by simp
  have n1: "map lexer_name ?pre = map lexer_name pre0"
    by (rule patch_names)
  have n2: "map lexer_name ?post = map lexer_name post0"
    by (rule patch_names)
  have "lexer_name ` set ?pre = set (map lexer_name ?pre)" by (simp only: set_map)
  also have "\<dots> = lexer_name ` set pre0" by (simp only: n1 set_map)
  finally have 3: "''equals'' \<notin> lexer_name ` set ?pre"
    using np by (simp only: not_False_eq_True)
  have 4: "map lexer_name (?pre @ eq # ?post) = map lexer_name ansi_lexer_matchers"
    by (simp only: map_append list.map n1 n2 sp)
  have 5: "(\<forall>m \<in> set ?pre. match_length re m ''=>'' = 0) \<longrightarrow>
      lex re (?pre @ ?arrow # eq # ?post) 0 ''=>''
       = [\<lparr>seg_name = ''right_arrow'', seg_class = CodeSegment, raw = ''=>'', pos = 0\<rparr>]"
  proof
    assume h: "\<forall>m \<in> set ?pre. match_length re m ''=>'' = 0"
    have pos: "0 < match_length re ?arrow ''=>''" by simp
    have "first_match re (?pre @ ?arrow # eq # ?post) ''=>''
        = Some (?arrow, match_length re ?arrow ''=>'')"
      using h pos by (rule first_match_in_order)
    also have "match_length re ?arrow ''=>'' = length ''=>''" by simp
    finally have "lex re (?pre @ ?arrow # eq # ?post) 0 ''=>''
       = [\<lparr>seg_name = lexer_name ?arrow, seg_class = lexer_class ?arrow, raw = ''=>'', pos = 0\<rparr>]"
      by (rule lex_single)
    then show "lex re (?pre @ ?arrow # eq # ?post) 0 ''=>''
       = [\<lparr>seg_name = ''right_arrow'', seg_class = CodeSegment, raw = ''=>'', pos = 0\<rparr>]"
      by (simp only: lexer_name.simps lexer_class.simps)
  qed
  show "\<exists>pre eq post.
          bigquery_lexer_matchers ansi_lexer_matchers
            = Some (pre @ StringLexer ''right_arrow'' ''=>'' CodeSegment # eq # post)
        \<and> lexer_name eq = ''equals'' \<and> eq \<in> set ansi_lexer_matchers
        \<and> ''equals'' \<notin> lexer_name ` set pre
        \<and> map lexer_name (pre @ eq # post) = map lexer_name ansi_lexer_matchers
        \<and> ((\<forall>m \<in> set pre. match_length re m ''=>'' = 0) \<longrightarrow>
             lex re (pre @ StringLexer ''right_arrow'' ''=>'' CodeSegment # eq # post) 0 ''=>''
               = [\<lparr>seg_name = ''right_arrow'', seg_class = CodeSegment, raw = ''=>'', pos = 0\<rparr>])"
    apply (rule exI [of _ ?pre])
    apply (rule exI [of _ eq])
    apply (rule exI [of _ ?post])
    apply (intro conjI)
         apply (rule 1)
        apply (rule eq)
       apply (rule 2)
      apply (rule 3)
     apply (rule 4)
    apply (rule 5)
    done
qed


theorem bigquery_right_arrow_lexed_first_witness:
  "''equals'' \<in> lexer_name ` set example_ansi_lexer_matchers
   \<and> bigquery_lexer_matchers example_ansi_lexer_matchers = Some
       [RegexLexer ''single_quote'' single_quote_pattern CodeSegment,
        StringLexer ''greater_than_or_equal'' ''>='' CodeSegment,
        StringLexer ''right_arrow'' ''=>'' CodeSegment,
        StringLexer ''equals'' ''='' CodeSegment,
        StringLexer ''greater_than'' ''>'' CodeSegment]
   \<and> (\<exists>pre eq post. bigquery_lexer_matchers example_ansi_lexer_matchers
          = Some (pre @ StringLexer ''right_arrow'' ''=>'' CodeSegment # eq # post)
        \<and> lexer_name eq = ''equals'')
   \<and> lex (\<lambda>pattern inp. 0)
        [RegexLexer ''single_quote'' single_quote_pattern CodeSegment,
         StringLexer ''greater_than_or_equal'' ''>='' CodeSegment,
         StringLexer ''right_arrow'' ''=>'' CodeSegment,
         StringLexer ''equals'' ''='' CodeSegment,
         StringLexer ''greater_than'' ''>'' CodeSegment] 0 ''=>''
       = [\<lparr>seg_name = ''right_arrow'', seg_class = CodeSegment, raw = ''=>'', pos = 0\<rparr>]
   \<and> lex (\<lambda>pattern inp. 0) example_ansi_lexer_matchers 0 ''=>''
       = [\<lparr>seg_name = ''equals'', seg_class = CodeSegment, raw = ''='', pos = 0\<rparr>,
          \<lparr>seg_name = ''greater_than'', seg_class = CodeSegment, raw = ''>'', pos = 1\<rparr>]"
proof -
  let ?re = "\<lambda>(pattern::string) (inp::string). 0::nat"
  let ?arrow = "StringLexer ''right_arrow'' ''=>'' CodeSegment"
  let ?built = "[RegexLexer ''single_quote'' single_quote_pattern CodeSegment,
        StringLexer ''greater_than_or_equal'' ''>='' CodeSegment,
        StringLexer ''right_arrow'' ''=>'' CodeSegment,
        StringLexer ''equals'' ''='' CodeSegment,
        StringLexer ''greater_than'' ''>'' CodeSegment]"
  have h: "''equals'' \<in> lexer_name ` set example_ansi_lexer_matchers"
    by (simp add: example_ansi_lexer_matchers_def)
  have b: "bigquery_lexer_matchers example_ansi_lexer_matchers = Some ?built"
    by (simp add: example_ansi_lexer_matchers_def bigquery_lexer_matchers_def
        insert_lexer_matchers_def patch_lexer_matchers_def)
  from bigquery_right_arrow_lexed_first [OF h, of ?re]
  obtain pre eq post where
    s: "bigquery_lexer_matchers example_ansi_lexer_matchers = Some (pre @ ?arrow # eq # post)"
    and e: "lexer_name eq = ''equals''"
    by (elim conjE exE)
  then have x: "\<exists>pre eq post. bigquery_lexer_matchers example_ansi_lexer_matchers
          = Some (pre @ ?arrow # eq # post) \<and> lexer_name eq = ''equals''"
    by blast
  have l1: "lex ?re ?built 0 ''=>''
       = [\<lparr>seg_name = ''right_arrow'', seg_class = CodeSegment, raw = ''=>'', pos = 0\<rparr>]"
    by code_simp
  have l2: "lex ?re example_ansi_lexer_matchers 0 ''=>''
       = [\<lparr>seg_name = ''equals'', seg_class = CodeSegment, raw = ''='', pos = 0\<rparr>,
          \<lparr>seg_name = ''greater_than'', seg_class = CodeSegment, raw = ''>'', pos = 1\<rparr>]"
    by code_simp
  from h b x l1 l2 show ?thesis by (intro conjI)
qed

subsection \<open>The longest alternative, the first declared among equals\<close>

lemma selected_snoc_keep:
  assumes "selected toks rs i" and "\<not> (is_match r \<and> consumed_by toks (rs ! i) < consumed_by toks r)"
  shows "selected toks (rs @ [r]) i"
  using assms unfolding selected_def
  by (auto simp: nth_append less_Suc_eq)

lemma selected_snoc_new:
  assumes "selected toks rs i" and "is_match r" and "consumed_by toks (rs ! i) < consumed_by toks r"
  shows "selected toks (rs @ [r]) (length rs)"
  using assms unfolding selected_def
  by (auto simp: nth_append less_Suc_eq)

lemma selected_first:
  assumes "\<forall>x \<in> set rs. \<not> is_match x" and "is_match r"
  shows "selected toks (rs @ [r]) (length rs)"
  using assms unfolding selected_def
  by (auto simp: nth_append less_Suc_eq)

lemma longest_no_match [simp]: "r \<noteq> OutOfFuel \<Longrightarrow> longest toks NoMatch r = r"
  by (cases r) simp_all

lemma longest_best:
  assumes "is_match b" and "r \<noteq> OutOfFuel"
  shows "longest toks b r =
     (if is_match r \<and> consumed_by toks b < consumed_by toks r then r else b)"
  using assms by (cases b; cases r) simp_all

lemma foldl_longest_selects:
  assumes "OutOfFuel \<notin> set rs"
  shows "(if \<exists>x \<in> set rs. is_match x
    then \<exists>i. selected toks rs i \<and> foldl (longest toks) NoMatch rs = rs ! i
    else foldl (longest toks) NoMatch rs = NoMatch)"
  using assms
proof (induction rs rule: rev_induct)
  case Nil
  then show ?case by simp
next
  case (snoc r rs)
  from snoc.prems have r: "r \<noteq> OutOfFuel" and rs: "OutOfFuel \<notin> set rs" by auto
  note ih = snoc.IH [OF rs]
  show ?case
  proof (cases "\<exists>x \<in> set rs. is_match x")
    case True
    with ih obtain i where i: "selected toks rs i" "foldl (longest toks) NoMatch rs = rs ! i"
      by auto
    from i(1) have il: "i < length rs" and mi: "is_match (rs ! i)" by (simp_all add: selected_def)
    show ?thesis
    proof (cases "is_match r \<and> consumed_by toks (rs ! i) < consumed_by toks r")
      case True
      then have "selected toks (rs @ [r]) (length rs)" using i(1) by (simp add: selected_snoc_new)
      moreover have "foldl (longest toks) NoMatch (rs @ [r]) = (rs @ [r]) ! length rs"
        using True i(2) mi r by (simp add: longest_best)
      ultimately show ?thesis using True by auto
    next
      case False
      then have "selected toks (rs @ [r]) i" using i(1) by (rule selected_snoc_keep [rotated])
      moreover have "longest toks (rs ! i) r = rs ! i"
        unfolding longest_best [OF mi r] using False by (rule if_not_P)
      then have "foldl (longest toks) NoMatch (rs @ [r]) = (rs @ [r]) ! i"
        using i(2) il by (simp add: nth_append)
      ultimately show ?thesis using \<open>\<exists>x \<in> set rs. is_match x\<close> by auto
    qed
  next
    case False
    with ih have nm: "foldl (longest toks) NoMatch rs = NoMatch" by simp
    show ?thesis
    proof (cases "is_match r")
      case True
      have "selected toks (rs @ [r]) (length rs)" using False True by (simp add: selected_first)
      moreover have "foldl (longest toks) NoMatch (rs @ [r]) = (rs @ [r]) ! length rs"
        using r nm by simp
      ultimately show ?thesis using True by auto
    next
      case False
      with r have "r = NoMatch" by (cases r) simp_all
      then show ?thesis using \<open>\<not> (\<exists>x \<in> set rs. is_match x)\<close> nm by simp
    qed
  qed
qed

lemma foldl_longest_out_of_fuel:
  "acc = OutOfFuel \<or> OutOfFuel \<in> set rs \<Longrightarrow> foldl (longest toks) acc rs = OutOfFuel"
proof (induction rs arbitrary: acc)
  case Nil
  then show ?case by simp
next
  case (Cons r rs)
  from Cons.prems have "longest toks acc r = OutOfFuel \<or> OutOfFuel \<in> set rs"
    by (cases acc; cases r) auto
  then show ?case using Cons.IH by simp
qed

text \<open>
  Claim C3. For all alternatives, segments from any start position on, and fuel: when every
  alternative returns, \<open>OneOf\<close> returns; when none matches it does not match; otherwise
  its outcome is that of an alternative that matches, that no matching alternative exceeds
  in the number of segments consumed, and that every matching alternative declared before
  it falls short of. (When an alternative does not return, \<open>OneOf\<close> does not either.)
\<close>

theorem OneOf_longest_first_declared:
  "(if \<exists>g \<in> set alternatives. match_fuel n re d g toks = OutOfFuel
    then match_fuel (Suc n) re d (OneOf alternatives) toks = OutOfFuel
    else if \<exists>g \<in> set alternatives. is_match (match_fuel n re d g toks)
    then \<exists>i < length alternatives.
           match_fuel (Suc n) re d (OneOf alternatives) toks
             = match_fuel n re d (alternatives ! i) toks
         \<and> is_match (match_fuel n re d (alternatives ! i) toks)
         \<and> (\<forall>j < length alternatives. is_match (match_fuel n re d (alternatives ! j) toks) \<longrightarrow>
               consumed_by toks (match_fuel n re d (alternatives ! j) toks)
                 \<le> consumed_by toks (match_fuel n re d (alternatives ! i) toks))
         \<and> (\<forall>j < i. is_match (match_fuel n re d (alternatives ! j) toks) \<longrightarrow>
               consumed_by toks (match_fuel n re d (alternatives ! j) toks)
                 < consumed_by toks (match_fuel n re d (alternatives ! i) toks))
    else match_fuel (Suc n) re d (OneOf alternatives) toks = NoMatch)"
proof -
  let ?rs = "map (\<lambda>g. match_fuel n re d g toks) alternatives"
  have one: "match_fuel (Suc n) re d (OneOf alternatives) toks = foldl (longest toks) NoMatch ?rs"
    by (simp add: match_one_of_def)
  show ?thesis
  proof (cases "\<exists>g \<in> set alternatives. match_fuel n re d g toks = OutOfFuel")
    case True
    then have "OutOfFuel \<in> set ?rs" by force
    then have "foldl (longest toks) NoMatch ?rs = OutOfFuel"
      by (simp add: foldl_longest_out_of_fuel)
    with True one show ?thesis by simp
  next
    case False
    then have nf: "OutOfFuel \<notin> set ?rs" by force
    have ex: "(\<exists>x \<in> set ?rs. is_match x)
        = (\<exists>g \<in> set alternatives. is_match (match_fuel n re d g toks))"
      by auto
    show ?thesis
    proof (cases "\<exists>g \<in> set alternatives. is_match (match_fuel n re d g toks)")
      case True
      with ex foldl_longest_selects [OF nf, of toks]
      obtain i where i: "selected toks ?rs i" "foldl (longest toks) NoMatch ?rs = ?rs ! i"
        by auto
      from i(1) have il: "i < length alternatives" by (simp add: selected_def)
      have a: "match_fuel (Suc n) re d (OneOf alternatives) toks
             = match_fuel n re d (alternatives ! i) toks"
        using i(2) il one by simp
      have b: "is_match (match_fuel n re d (alternatives ! i) toks)"
        using i(1) il by (simp add: selected_def)
      have c: "\<forall>j < length alternatives. is_match (match_fuel n re d (alternatives ! j) toks) \<longrightarrow>
               consumed_by toks (match_fuel n re d (alternatives ! j) toks)
                 \<le> consumed_by toks (match_fuel n re d (alternatives ! i) toks)"
        using i(1) il by (simp add: selected_def)
      have e: "\<forall>j < i. is_match (match_fuel n re d (alternatives ! j) toks) \<longrightarrow>
               consumed_by toks (match_fuel n re d (alternatives ! j) toks)
                 < consumed_by toks (match_fuel n re d (alternatives ! i) toks)"
        using i(1) il by (simp add: selected_def)
      from il a b c e have "\<exists>i < length alternatives.
           match_fuel (Suc n) re d (OneOf alternatives) toks
             = match_fuel n re d (alternatives ! i) toks
         \<and> is_match (match_fuel n re d (alternatives ! i) toks)
         \<and> (\<forall>j < length alternatives. is_match (match_fuel n re d (alternatives ! j) toks) \<longrightarrow>
               consumed_by toks (match_fuel n re d (alternatives ! j) toks)
                 \<le> consumed_by toks (match_fuel n re d (alternatives ! i) toks))
         \<and> (\<forall>j < i. is_match (match_fuel n re d (alternatives ! j) toks) \<longrightarrow>
               consumed_by toks (match_fuel n re d (alternatives ! j) toks)
                 < consumed_by toks (match_fuel n re d (alternatives ! i) toks))"
        by blast
      with True False show ?thesis by (simp only: if_True if_False)
    next
      case True2: False
      with ex foldl_longest_selects [OF nf, of toks]
      have "foldl (longest toks) NoMatch ?rs = NoMatch" by simp
      with False True2 one show ?thesis by (simp only: if_False)
    qed
  qed
qed

lemma second_branch: "(if A then X else if B then Y else Z) \<Longrightarrow> \<not> A \<Longrightarrow> B \<Longrightarrow> Y"
  by simp

theorem OneOf_longest_first_declared_witness:
  "match_fuel 3 example_regex example_dialect
      (OneOf [Terminal (Literal ''A'') ''identifier'',
              Sequence [(Terminal (Literal ''A'') ''identifier'', False),
                        (Terminal (Literal ''B'') ''identifier'', False)]])
      (lex example_regex (lexer_matchers example_dialect) 0 ''A B'')
     = Match
        [RawSegment \<lparr>seg_name = ''identifier'', seg_class = CodeSegment, raw = ''A'', pos = 0\<rparr>,
         RawSegment \<lparr>seg_name = ''whitespace'', seg_class = WhitespaceSegment, raw = '' '', pos = 1\<rparr>,
         RawSegment \<lparr>seg_name = ''identifier'', seg_class = CodeSegment, raw = ''B'', pos = 2\<rparr>]
        []
   \<and> match_fuel 3 example_regex example_dialect
      (OneOf [Terminal (Literal ''A'') ''first'', Terminal (Literal ''A'') ''second''])
      (lex example_regex (lexer_matchers example_dialect) 0 ''A B'')
     = Match
        [RawSegment \<lparr>seg_name = ''first'', seg_class = CodeSegment, raw = ''A'', pos = 0\<rparr>]
        [\<lparr>seg_name = ''whitespace'', seg_class = WhitespaceSegment, raw = '' '', pos = 1\<rparr>,
         \<lparr>seg_name = ''code'', seg_class = CodeSegment, raw = ''B'', pos = 2\<rparr>]"
proof -
  let ?re = example_regex
  let ?d = example_dialect
  let ?toks = "lex ?re (lexer_matchers ?d) 0 ''A B''"
  let ?a = "Terminal (Literal ''A'') ''identifier''"
  let ?ab = "Sequence [(Terminal (Literal ''A'') ''identifier'', False),
                        (Terminal (Literal ''B'') ''identifier'', False)]"
  let ?ws = "\<lparr>seg_name = ''whitespace'', seg_class = WhitespaceSegment, raw = '' '', pos = 1\<rparr>"
  let ?b = "\<lparr>seg_name = ''code'', seg_class = CodeSegment, raw = ''B'', pos = 2\<rparr>"
  have toks: "?toks = [\<lparr>seg_name = ''code'', seg_class = CodeSegment, raw = ''A'', pos = 0\<rparr>, ?ws, ?b]"
    by code_simp
  have ra: "match_fuel 2 ?re ?d ?a ?toks
      = Match [RawSegment \<lparr>seg_name = ''identifier'', seg_class = CodeSegment, raw = ''A'', pos = 0\<rparr>]
          [?ws, ?b]"
    by code_simp
  have rab: "match_fuel 2 ?re ?d ?ab ?toks
      = Match
        [RawSegment \<lparr>seg_name = ''identifier'', seg_class = CodeSegment, raw = ''A'', pos = 0\<rparr>,
         RawSegment \<lparr>seg_name = ''whitespace'', seg_class = WhitespaceSegment, raw = '' '', pos = 1\<rparr>,
         RawSegment \<lparr>seg_name = ''identifier'', seg_class = CodeSegment, raw = ''B'', pos = 2\<rparr>]
        []"
    by code_simp
  have ca: "consumed_by ?toks (match_fuel 2 ?re ?d ?a ?toks) = 1"
    unfolding ra unfolding toks by (simp add: consumed_def)
  have cab: "consumed_by ?toks (match_fuel 2 ?re ?d ?ab ?toks) = 3"
    unfolding rab unfolding toks by (simp add: consumed_def)
  have nf: "\<not> (\<exists>g \<in> set [?a, ?ab]. match_fuel 2 ?re ?d g ?toks = OutOfFuel)"
    using ra rab by simp
  have ex: "\<exists>g \<in> set [?a, ?ab]. is_match (match_fuel 2 ?re ?d g ?toks)"
    using ra by simp
  from second_branch [OF OneOf_longest_first_declared [of "[?a, ?ab]" 2 ?re ?d ?toks] nf ex]
  obtain i where i: "i < length [?a, ?ab]"
    and eq: "match_fuel (Suc 2) ?re ?d (OneOf [?a, ?ab]) ?toks = match_fuel 2 ?re ?d ([?a, ?ab] ! i) ?toks"
    and mx: "\<forall>j < length [?a, ?ab]. is_match (match_fuel 2 ?re ?d ([?a, ?ab] ! j) ?toks) \<longrightarrow>
               consumed_by ?toks (match_fuel 2 ?re ?d ([?a, ?ab] ! j) ?toks)
                 \<le> consumed_by ?toks (match_fuel 2 ?re ?d ([?a, ?ab] ! i) ?toks)"
    by blast
  have "i \<noteq> 0"
  proof
    assume "i = 0"
    with mx [rule_format, of 1] rab ca cab show False by simp
  qed
  with i have "i = 1" by simp
  with eq rab have 1: "match_fuel 3 ?re ?d (OneOf [?a, ?ab]) ?toks
      = Match
        [RawSegment \<lparr>seg_name = ''identifier'', seg_class = CodeSegment, raw = ''A'', pos = 0\<rparr>,
         RawSegment \<lparr>seg_name = ''whitespace'', seg_class = WhitespaceSegment, raw = '' '', pos = 1\<rparr>,
         RawSegment \<lparr>seg_name = ''identifier'', seg_class = CodeSegment, raw = ''B'', pos = 2\<rparr>]
        []"
    by (simp add: eval_nat_numeral)
  let ?f = "Terminal (Literal ''A'') ''first''" and ?s = "Terminal (Literal ''A'') ''second''"
  have rf: "match_fuel 2 ?re ?d ?f ?toks
      = Match [RawSegment \<lparr>seg_name = ''first'', seg_class = CodeSegment, raw = ''A'', pos = 0\<rparr>]
          [?ws, ?b]"
    by code_simp
  have rs: "match_fuel 2 ?re ?d ?s ?toks
      = Match [RawSegment \<lparr>seg_name = ''second'', seg_class = CodeSegment, raw = ''A'', pos = 0\<rparr>]
          [?ws, ?b]"
    by code_simp
  have cf: "consumed_by ?toks (match_fuel 2 ?re ?d ?f ?toks) = 1"
    unfolding rf unfolding toks by (simp add: consumed_def)
  have cs: "consumed_by ?toks (match_fuel 2 ?re ?d ?s ?toks) = 1"
    unfolding rs unfolding toks by (simp add: consumed_def)
  have nf2: "\<not> (\<exists>g \<in> set [?f, ?s]. match_fuel 2 ?re ?d g ?toks = OutOfFuel)"
    using rf rs by simp
  have ex2: "\<exists>g \<in> set [?f, ?s]. is_match (match_fuel 2 ?re ?d g ?toks)"
    using rf by simp
  from second_branch [OF OneOf_longest_first_declared [of "[?f, ?s]" 2 ?re ?d ?toks] nf2 ex2]
  obtain k where k: "k < length [?f, ?s]"
    and eqk: "match_fuel (Suc 2) ?re ?d (OneOf [?f, ?s]) ?toks = match_fuel 2 ?re ?d ([?f, ?s] ! k) ?toks"
    and fst: "\<forall>j < k. is_match (match_fuel 2 ?re ?d ([?f, ?s] ! j) ?toks) \<longrightarrow>
               consumed_by ?toks (match_fuel 2 ?re ?d ([?f, ?s] ! j) ?toks)
                 < consumed_by ?toks (match_fuel 2 ?re ?d ([?f, ?s] ! k) ?toks)"
    by blast
  have "k = 0"
  proof (rule ccontr)
    assume "k \<noteq> 0"
    with k have k1: "k = 1" by simp
    from fst [rule_format, of 0] k1 rf cf cs show False by simp
  qed
  with eqk rf have 2: "match_fuel 3 ?re ?d (OneOf [?f, ?s]) ?toks
      = Match [RawSegment \<lparr>seg_name = ''first'', seg_class = CodeSegment, raw = ''A'', pos = 0\<rparr>]
          [?ws, ?b]"
    by (simp add: eval_nat_numeral)
  from 1 2 show ?thesis by (rule conjI)
qed

subsection \<open>Matching and parsing keep the text\<close>

lemma segs_text_simps [simp]:
  "segs_text [] = []"
  "segs_text (c # cs) = raw_text c @ segs_text cs"
  "segs_text (cs @ cs') = segs_text cs @ segs_text cs'"
  by (simp_all add: segs_text_def)

lemma toks_text_simps [simp]:
  "toks_text [] = []"
  "toks_text (t # ts) = raw t @ toks_text ts"
  "toks_text (ts @ ts') = toks_text ts @ toks_text ts'"
  by (simp_all add: toks_text_def)

lemma segs_text_raw [simp]: "segs_text (map RawSegment toks) = toks_text toks"
  by (induction toks) simp_all

lemma segs_text_unparsable [simp]: "segs_text (unparsable toks) = toks_text toks"
  by (simp add: unparsable_def segs_text_def toks_text_def comp_def)

lemma concat_raw_text [simp]: "concat (map raw_text cs) = segs_text cs"
  by (simp add: segs_text_def)

lemma concat_raw [simp]: "concat (map raw toks) = toks_text toks"
  by (simp add: toks_text_def)

lemma toks_text_take_drop: "toks_text (take n toks) @ toks_text (drop n toks) = toks_text toks"
  by (metis append_take_drop_id toks_text_simps(3))

lemma losslessD:
  "lossless rec \<Longrightarrow> rec g toks = Match cs rest \<Longrightarrow> segs_text cs @ toks_text rest = toks_text toks"
  by (simp add: lossless_def)

lemma match_terminal_lossless:
  "match_terminal re t ty toks = Match cs rest \<Longrightarrow> segs_text cs @ toks_text rest = toks_text toks"
  by (auto simp: match_terminal_def split: list.splits if_splits)

lemma with_gap_Match:
  assumes "with_gap rec g toks = Match cs rest"
  obtains cs1 where "rec g (dropWhile is_trivia toks) = Match cs1 rest"
    and "cs = map RawSegment (takeWhile is_trivia toks) @ cs1"
  using assms by (auto simp: with_gap_def split: match_outcome.splits)

lemma with_gap_lossless:
  assumes "lossless rec"
  shows "lossless (with_gap rec)"
  unfolding lossless_def
proof (intro allI impI)
  fix g toks cs rest
  assume "with_gap rec g toks = Match cs rest"
  then obtain cs1 where m: "rec g (dropWhile is_trivia toks) = Match cs1 rest"
    and cs: "cs = map RawSegment (takeWhile is_trivia toks) @ cs1"
    by (rule with_gap_Match)
  from losslessD [OF assms m]
  have "segs_text cs @ toks_text rest
      = toks_text (takeWhile is_trivia toks) @ toks_text (dropWhile is_trivia toks)"
    by (simp add: cs)
  also have "\<dots> = toks_text (takeWhile is_trivia toks @ dropWhile is_trivia toks)"
    by (simp only: toks_text_simps)
  finally show "segs_text cs @ toks_text rest = toks_text toks" by simp
qed

lemma match_elements_lossless:
  assumes "lossless later"
  shows "lossless first \<Longrightarrow> match_elements first later children toks = Match cs rest \<Longrightarrow>
         segs_text cs @ toks_text rest = toks_text toks"
proof (induction children arbitrary: first toks cs rest)
  case Nil
  then show ?case by simp
next
  case (Cons c children)
  obtain g optional where c: "c = (g, optional)" by (cases c)
  show ?case
  proof (cases "first g toks")
    case OutOfFuel
    with Cons.prems c show ?thesis by simp
  next
    case NoMatch
    with Cons.prems c have "match_elements first later children toks = Match cs rest"
      by (simp split: if_splits)
    with Cons.prems(1) show ?thesis by (rule Cons.IH)
  next
    case (Match cs1 rest1)
    with Cons.prems c obtain cs2 where
      m2: "match_elements later later children rest1 = Match cs2 rest" and cs: "cs = cs1 @ cs2"
      by (auto split: match_outcome.splits)
    from losslessD [OF Cons.prems(1) Match] Cons.IH [OF assms m2] cs show ?thesis
      by simp
  qed
qed

lemma match_sequence_lossless:
  assumes "lossless rec" and "match_sequence rec children toks = Match cs rest"
  shows "segs_text cs @ toks_text rest = toks_text toks"
  using match_elements_lossless [OF with_gap_lossless [OF assms(1)] assms(1)] assms(2)
  by (simp add: match_sequence_def)

lemma foldl_longest_member:
  "foldl (longest toks) acc rs = Match cs rest \<Longrightarrow>
   acc = Match cs rest \<or> Match cs rest \<in> set rs"
proof (induction rs arbitrary: acc)
  case Nil
  then show ?case by simp
next
  case (Cons r rs)
  from Cons.prems have "foldl (longest toks) (longest toks acc r) rs = Match cs rest" by simp
  from Cons.IH [OF this]
  have "longest toks acc r = Match cs rest \<or> Match cs rest \<in> set rs" .
  moreover have "longest toks acc r = Match cs rest \<Longrightarrow>
      acc = Match cs rest \<or> r = Match cs rest"
    by (cases acc; cases r) (auto split: if_splits)
  ultimately show ?case by auto
qed

lemma match_one_of_lossless:
  assumes "lossless rec" and "match_one_of rec alternatives toks = Match cs rest"
  shows "segs_text cs @ toks_text rest = toks_text toks"
proof -
  from assms(2) foldl_longest_member
  have "Match cs rest \<in> set (map (\<lambda>g. rec g toks) alternatives)"
    unfolding match_one_of_def by fastforce
  then obtain g where "rec g toks = Match cs rest" by auto
  with assms(1) show ?thesis by (rule losslessD)
qed

lemma match_repeat_lossless:
  assumes "lossless later"
  shows "lossless first \<Longrightarrow> match_repeat first later g k toks = Some (cs, n, rest) \<Longrightarrow>
         segs_text cs @ toks_text rest = toks_text toks"
proof (induction k arbitrary: first toks cs n rest)
  case 0
  then show ?case by simp
next
  case (Suc k)
  show ?case
  proof (cases "first g toks")
    case OutOfFuel
    with Suc.prems show ?thesis by simp
  next
    case NoMatch
    with Suc.prems show ?thesis by simp
  next
    case (Match cs1 rest1)
    show ?thesis
    proof (cases "length rest1 < length toks")
      case True
      with Suc.prems Match obtain cs2 n2 where
        r: "match_repeat later later g k rest1 = Some (cs2, n2, rest)" and cs: "cs = cs1 @ cs2"
        by (auto split: option.splits)
      from losslessD [OF Suc.prems(1) Match] Suc.IH [OF assms r] cs show ?thesis
        by simp
    next
      case False
      with Suc.prems Match show ?thesis by simp
    qed
  qed
qed

lemma match_any_number_of_lossless:
  assumes "lossless rec" and "match_any_number_of rec g mn mx toks = Match cs rest"
  shows "segs_text cs @ toks_text rest = toks_text toks"
  using assms(2) match_repeat_lossless [OF with_gap_lossless [OF assms(1)] assms(1)]
  by (auto simp: match_any_number_of_def split: option.splits if_splits)

lemma delimited_tail_lossless:
  assumes "lossless rec"
  shows "delimited_tail rec elem delim allow k toks = Some (cs, rest) \<Longrightarrow>
         segs_text cs @ toks_text rest = toks_text toks"
proof (induction k arbitrary: toks cs rest)
  case 0
  then show ?case by simp
next
  case (Suc k)
  show ?case
  proof (cases "rec delim toks")
    case OutOfFuel
    with Suc.prems show ?thesis by simp
  next
    case NoMatch
    with Suc.prems show ?thesis by simp
  next
    case (Match dcs drest)
    note d = losslessD [OF assms Match]
    show ?thesis
    proof (cases "length drest < length toks")
      case False
      with Suc.prems Match show ?thesis by simp
    next
      case True
      show ?thesis
      proof (cases "rec elem drest")
        case OutOfFuel
        with Suc.prems Match True show ?thesis by simp
      next
        case NoMatch
        with Suc.prems Match True d show ?thesis by (auto split: if_splits)
      next
        case (Match ecs erest)
        with Suc.prems \<open>rec delim toks = Match dcs drest\<close> True obtain cs2 where
          t: "delimited_tail rec elem delim allow k erest = Some (cs2, rest)"
          and cs: "cs = dcs @ ecs @ cs2"
          by (auto split: option.splits)
        from d losslessD [OF assms Match] Suc.IH [OF t] cs show ?thesis
          by (metis append_assoc segs_text_simps(3))
      qed
    qed
  qed
qed

lemma match_delimited_lossless:
  assumes "lossless rec" and "match_delimited rec elem delim allow toks = Match cs rest"
  shows "segs_text cs @ toks_text rest = toks_text toks"
proof -
  from assms(2) obtain ecs erest cs2 where
    e: "rec elem toks = Match ecs erest"
    and t: "delimited_tail (with_gap rec) elem delim allow (length erest) erest = Some (cs2, rest)"
    and cs: "cs = ecs @ cs2"
    by (auto simp: match_delimited_def split: match_outcome.splits option.splits)
  from losslessD [OF assms(1) e] delimited_tail_lossless [OF with_gap_lossless [OF assms(1)] t] cs
  show ?thesis
    by (metis append_assoc segs_text_simps(3))
qed

lemma match_bracketed_lossless:
  assumes "lossless rec" and "match_bracketed d rec inner bt bps toks = Match cs rest"
  shows "segs_text cs @ toks_text rest = toks_text toks"
proof -
  from assms(2) obtain start_ref end_ref where
    "match_sequence rec [(Ref start_ref, False), (inner, False), (Ref end_ref, False)] toks
       = Match cs rest"
    by (auto simp: match_bracketed_def split: option.splits prod.splits)
  then show ?thesis by (rule match_sequence_lossless [OF assms(1)])
qed

lemma scan_to_terminator_split:
  "scan_to_terminator rec t enforce after_ws toks = Some (interior, rest) \<Longrightarrow>
   interior @ rest = toks"
proof (induction toks arbitrary: after_ws interior rest)
  case Nil
  then show ?case by simp
next
  case (Cons tok others)
  then show ?case
    by (auto split: match_outcome.splits option.splits if_splits)
qed

lemma match_starts_with_lossless:
  assumes "lossless rec" and "match_starts_with rec anchor terminator enforce toks = Match cs rest"
  shows "segs_text cs @ toks_text rest = toks_text toks"
proof -
  from assms(2) obtain acs arest where a: "rec anchor toks = Match acs arest"
    by (auto simp: match_starts_with_def split: match_outcome.splits)
  note al = losslessD [OF assms(1) a]
  show ?thesis
  proof (cases terminator)
    case None
    with assms(2) a al show ?thesis by (auto simp: match_starts_with_def)
  next
    case (Some t)
    with assms(2) a obtain interior where
      s: "scan_to_terminator rec t enforce False arest = Some (interior, rest)"
      and cs: "cs = acs @ map RawSegment interior"
      by (auto simp: match_starts_with_def split: option.splits)
    from scan_to_terminator_split [OF s] have "toks_text interior @ toks_text rest = toks_text arest"
      by (metis toks_text_simps(3))
    with al cs show ?thesis by simp
  qed
qed

lemma match_ref_lossless:
  assumes "lossless rec" and "match_ref d rec name toks = Match cs rest"
  shows "segs_text cs @ toks_text rest = toks_text toks"
proof (cases "library d name")
  case None
  with assms(2) show ?thesis by (simp add: match_ref_def)
next
  case (Some entry)
  show ?thesis
  proof (cases entry)
    case (GrammarEntry g)
    with assms Some show ?thesis by (simp add: match_ref_def losslessD)
  next
    case (SegmentEntry ty mg pgo)
    with assms(2) Some obtain mcs mrest where m: "rec mg toks = Match mcs mrest"
      by (auto simp: match_ref_def split: match_outcome.splits)
    note ml = losslessD [OF assms(1) m]
    let ?n = "length toks - length mrest"
    show ?thesis
    proof (cases pgo)
      case None
      with assms(2) Some SegmentEntry m ml show ?thesis
        by (auto simp: match_ref_def)
    next
      case (Some pg)
      show ?thesis
      proof (cases "rec pg (take ?n toks)")
        case OutOfFuel
        with assms(2) \<open>library d name = Some entry\<close> SegmentEntry m Some show ?thesis
          by (simp add: match_ref_def Let_def)
      next
        case NoMatch
        with assms(2) \<open>library d name = Some entry\<close> SegmentEntry m Some show ?thesis
          by (auto simp: match_ref_def Let_def toks_text_take_drop)
      next
        case (Match pcs prest)
        from losslessD [OF assms(1) Match]
        have "segs_text pcs @ toks_text prest = toks_text (take ?n toks)" .
        with assms(2) \<open>library d name = Some entry\<close> SegmentEntry m Some Match show ?thesis
          by (auto simp: match_ref_def Let_def toks_text_take_drop)
      qed
    qed
  qed
qed

lemma match_step_lossless:
  assumes "lossless rec"
  shows "lossless (match_step re d rec)"
  unfolding lossless_def
proof (intro allI impI)
  fix g toks cs rest
  assume m: "match_step re d rec g toks = Match cs rest"
  show "segs_text cs @ toks_text rest = toks_text toks"
  proof (cases g)
    case (Terminal t ty)
    with m show ?thesis by (simp add: match_terminal_lossless)
  next
    case (Sequence children)
    with m show ?thesis by (simp add: match_sequence_lossless [OF assms])
  next
    case (OneOf alternatives)
    with m show ?thesis by (simp add: match_one_of_lossless [OF assms])
  next
    case (Bracketed inner bt bps)
    with m show ?thesis by (simp add: match_bracketed_lossless [OF assms])
  next
    case (Delimited elem delim allow)
    with m show ?thesis by (simp add: match_delimited_lossless [OF assms])
  next
    case (AnyNumberOf g' mn mx)
    with m show ?thesis by (simp add: match_any_number_of_lossless [OF assms])
  next
    case (StartsWith anchor terminator enforce)
    with m show ?thesis by (simp add: match_starts_with_lossless [OF assms])
  next
    case (Ref name)
    with m show ?thesis by (simp add: match_ref_lossless [OF assms])
  next
    case Anything
    with m show ?thesis by auto
  next
    case Nothing
    with m show ?thesis by simp
  next
    case Indent
    with m show ?thesis by (auto simp: meta_segment_def)
  next
    case Dedent
    with m show ?thesis by (auto simp: meta_segment_def)
  qed
qed

lemma match_fuel_lossless: "lossless (match_fuel n re d)"
proof (induction n)
  case 0
  show ?case by (simp add: lossless_def)
next
  case (Suc n)
  then show ?case by (simp add: match_step_lossless)
qed

lemma toks_text_lex: "toks_text (lex re ms p inp) = inp"
  using lex_lossless [of re ms p inp] by simp

lemma parse_round_trip:
  assumes "parse fuel re d inp = Some tree"
  shows "render tree = inp"
proof -
  let ?toks = "lex re (lexer_matchers d) 0 inp"
  show ?thesis
  proof (cases "match_fuel fuel re d (Ref (root_grammar d)) ?toks")
    case OutOfFuel
    with assms show ?thesis by (simp add: parse_def)
  next
    case NoMatch
    with assms have "tree = BaseSegment ''file'' (unparsable ?toks)" by (simp add: parse_def)
    then have "render tree = segs_text (unparsable ?toks)" by (simp add: render_def)
    then show ?thesis by (simp add: toks_text_lex)
  next
    case (Match cs rest)
    with assms have "tree = BaseSegment ''file'' (cs @ unparsable rest)" by (simp add: parse_def)
    then have "render tree = segs_text cs @ toks_text rest"
      by (simp add: render_def)
    also have "\<dots> = toks_text ?toks"
      using match_fuel_lossless Match by (rule losslessD)
    finally show ?thesis by (simp add: toks_text_lex)
  qed
qed

subsection \<open>What is left over\<close>

lemma shrinksD:
  "shrinks rec \<Longrightarrow> rec g toks = Match cs rest \<Longrightarrow> length rest \<le> length toks"
  by (simp add: shrinks_def)

lemma consumesD:
  "consumes rec g \<Longrightarrow> rec g toks = Match cs rest \<Longrightarrow> length rest < length toks"
  by (simp add: consumes_def)

lemma with_gap_shrinks:
  assumes "shrinks rec"
  shows "shrinks (with_gap rec)"
  unfolding shrinks_def
proof (intro allI impI)
  fix g toks cs rest
  assume "with_gap rec g toks = Match cs rest"
  then obtain cs1 where m: "rec g (dropWhile is_trivia toks) = Match cs1 rest"
    by (rule with_gap_Match)
  from shrinksD [OF assms m] length_dropWhile_le [of is_trivia toks]
  show "length rest \<le> length toks" by simp
qed

lemma with_gap_consumes:
  assumes "consumes rec g"
  shows "consumes (with_gap rec) g"
  unfolding consumes_def
proof (intro allI impI)
  fix toks cs rest
  assume "with_gap rec g toks = Match cs rest"
  then obtain cs1 where m: "rec g (dropWhile is_trivia toks) = Match cs1 rest"
    by (rule with_gap_Match)
  from consumesD [OF assms m] length_dropWhile_le [of is_trivia toks]
  show "length rest < length toks" by simp
qed

lemma match_terminal_consumes:
  "match_terminal re t ty toks = Match cs rest \<Longrightarrow> length rest < length toks"
  by (auto simp: match_terminal_def split: list.splits if_splits)

lemma match_elements_shrinks:
  assumes "shrinks later"
  shows "shrinks first \<Longrightarrow> match_elements first later children toks = Match cs rest \<Longrightarrow>
         length rest \<le> length toks"
proof (induction children arbitrary: first toks cs rest)
  case Nil
  then show ?case by simp
next
  case (Cons c children)
  obtain g optional where c: "c = (g, optional)" by (cases c)
  show ?case
  proof (cases "first g toks")
    case OutOfFuel
    with Cons.prems c show ?thesis by simp
  next
    case NoMatch
    with Cons.prems c have "match_elements first later children toks = Match cs rest"
      by (simp split: if_splits)
    with Cons.prems(1) show ?thesis by (rule Cons.IH)
  next
    case (Match cs1 rest1)
    with Cons.prems c obtain cs2 where
      m2: "match_elements later later children rest1 = Match cs2 rest"
      by (auto split: match_outcome.splits)
    from shrinksD [OF Cons.prems(1) Match] Cons.IH [OF assms m2] show ?thesis
      by simp
  qed
qed

lemma match_sequence_shrinks:
  assumes "shrinks rec" and "match_sequence rec children toks = Match cs rest"
  shows "length rest \<le> length toks"
  using match_elements_shrinks [OF with_gap_shrinks [OF assms(1)] assms(1)] assms(2)
  by (simp add: match_sequence_def)

lemma match_one_of_member:
  assumes "match_one_of rec alternatives toks = Match cs rest"
  obtains g where "g \<in> set alternatives" and "rec g toks = Match cs rest"
proof -
  from assms foldl_longest_member
  have "Match cs rest \<in> set (map (\<lambda>g. rec g toks) alternatives)"
    unfolding match_one_of_def by fastforce
  then obtain g where "g \<in> set alternatives" and "rec g toks = Match cs rest" by auto
  then show thesis by (rule that)
qed

lemma match_one_of_shrinks:
  assumes "shrinks rec" and "match_one_of rec alternatives toks = Match cs rest"
  shows "length rest \<le> length toks"
proof -
  from assms(2) obtain g where "rec g toks = Match cs rest" by (rule match_one_of_member)
  with assms(1) show ?thesis by (rule shrinksD)
qed

lemma match_repeat_shrinks:
  "match_repeat first later g k toks = Some (cs, n, rest) \<Longrightarrow>
   length rest \<le> length toks \<and> (0 < n \<longrightarrow> length rest < length toks)"
proof (induction k arbitrary: first toks cs n rest)
  case 0
  then show ?case by simp
next
  case (Suc k)
  show ?case
  proof (cases "first g toks")
    case OutOfFuel
    with Suc.prems show ?thesis by simp
  next
    case NoMatch
    with Suc.prems show ?thesis by simp
  next
    case (Match cs1 rest1)
    show ?thesis
    proof (cases "length rest1 < length toks")
      case True
      with Suc.prems Match obtain cs2 n2 where
        r: "match_repeat later later g k rest1 = Some (cs2, n2, rest)"
        by (auto split: option.splits)
      from Suc.IH [OF r] True show ?thesis by simp
    next
      case False
      with Suc.prems Match show ?thesis by simp
    qed
  qed
qed

lemma match_any_number_of_shrinks:
  assumes "match_any_number_of rec g mn mx toks = Match cs rest"
  shows "length rest \<le> length toks" and "0 < mn \<Longrightarrow> length rest < length toks"
proof -
  from assms obtain n where
    r: "match_repeat rec (with_gap rec) g
          (case mx of None \<Rightarrow> length toks | Some m \<Rightarrow> min m (length toks)) toks
        = Some (cs, n, rest)" and n: "\<not> n < mn"
    by (auto simp: match_any_number_of_def split: option.splits if_splits)
  from match_repeat_shrinks [OF r] show "length rest \<le> length toks" by simp
  assume "0 < mn"
  with n have "0 < n" by simp
  with match_repeat_shrinks [OF r] show "length rest < length toks" by simp
qed

lemma delimited_tail_shrinks:
  assumes "shrinks rec"
  shows "delimited_tail rec elem delim allow k toks = Some (cs, rest) \<Longrightarrow>
         length rest \<le> length toks"
proof (induction k arbitrary: toks cs rest)
  case 0
  then show ?case by simp
next
  case (Suc k)
  show ?case
  proof (cases "rec delim toks")
    case OutOfFuel
    with Suc.prems show ?thesis by simp
  next
    case NoMatch
    with Suc.prems show ?thesis by simp
  next
    case (Match dcs drest)
    show ?thesis
    proof (cases "length drest < length toks")
      case False
      with Suc.prems Match show ?thesis by simp
    next
      case True
      show ?thesis
      proof (cases "rec elem drest")
        case OutOfFuel
        with Suc.prems Match True show ?thesis by simp
      next
        case NoMatch
        with Suc.prems Match True show ?thesis by (auto split: if_splits)
      next
        case (Match ecs erest)
        with Suc.prems \<open>rec delim toks = Match dcs drest\<close> True obtain cs2 where
          t: "delimited_tail rec elem delim allow k erest = Some (cs2, rest)"
          by (auto split: option.splits)
        from shrinksD [OF assms Match] Suc.IH [OF t] True show ?thesis
          by simp
      qed
    qed
  qed
qed

lemma match_delimited_Match:
  assumes "match_delimited rec elem delim allow toks = Match cs rest"
  obtains ecs erest cs2 where "rec elem toks = Match ecs erest"
    and "delimited_tail (with_gap rec) elem delim allow (length erest) erest = Some (cs2, rest)"
  using assms
  by (auto simp: match_delimited_def split: match_outcome.splits option.splits)

lemma match_delimited_shrinks:
  assumes "shrinks rec" and "match_delimited rec elem delim allow toks = Match cs rest"
  shows "length rest \<le> length toks"
proof -
  from assms(2) obtain ecs erest cs2 where
    e: "rec elem toks = Match ecs erest"
    and t: "delimited_tail (with_gap rec) elem delim allow (length erest) erest = Some (cs2, rest)"
    by (rule match_delimited_Match)
  from shrinksD [OF assms(1) e] delimited_tail_shrinks [OF with_gap_shrinks [OF assms(1)] t]
  show ?thesis by simp
qed

lemma match_bracketed_Match:
  assumes "match_bracketed d rec inner bt bps toks = Match cs rest"
  obtains ty start_ref end_ref where
    "find (\<lambda>(ty, start_ref, end_ref). ty = bt) (bracket_sets d bps) = Some (ty, start_ref, end_ref)"
    and "match_sequence rec [(Ref start_ref, False), (inner, False), (Ref end_ref, False)] toks
           = Match cs rest"
  using assms
  by (auto simp: match_bracketed_def split: option.splits prod.splits)

lemma match_bracketed_shrinks:
  assumes "shrinks rec" and "match_bracketed d rec inner bt bps toks = Match cs rest"
  shows "length rest \<le> length toks"
proof -
  from assms(2) obtain ty start_ref end_ref where
    "match_sequence rec [(Ref start_ref, False), (inner, False), (Ref end_ref, False)] toks
       = Match cs rest"
    by (rule match_bracketed_Match)
  then show ?thesis by (rule match_sequence_shrinks [OF assms(1)])
qed

lemma match_starts_with_shrinks:
  assumes "match_starts_with rec anchor terminator enforce toks = Match cs rest"
  obtains acs arest where "rec anchor toks = Match acs arest" and "length rest \<le> length arest"
proof -
  from assms obtain acs arest where a: "rec anchor toks = Match acs arest"
    by (auto simp: match_starts_with_def split: match_outcome.splits)
  have "length rest \<le> length arest"
  proof (cases terminator)
    case None
    with assms a show ?thesis by (auto simp: match_starts_with_def)
  next
    case (Some t)
    with assms a obtain interior where
      s: "scan_to_terminator rec t enforce False arest = Some (interior, rest)"
      by (auto simp: match_starts_with_def split: option.splits)
    from scan_to_terminator_split [OF s] have "length interior + length rest = length arest"
      by (metis length_append)
    then show ?thesis by simp
  qed
  with a show thesis by (rule that)
qed

lemma match_ref_shrinks:
  assumes "shrinks rec" and "match_ref d rec name toks = Match cs rest"
  shows "length rest \<le> length toks"
proof (cases "library d name")
  case None
  with assms(2) show ?thesis by (simp add: match_ref_def)
next
  case (Some entry)
  show ?thesis
  proof (cases entry)
    case (GrammarEntry g)
    with assms Some show ?thesis by (simp add: match_ref_def shrinksD)
  next
    case (SegmentEntry ty mg pgo)
    with assms(2) Some obtain mcs mrest where m: "rec mg toks = Match mcs mrest"
      by (auto simp: match_ref_def split: match_outcome.splits)
    note ml = shrinksD [OF assms(1) m]
    from assms(2) Some SegmentEntry m have "rest = mrest \<or> rest = drop (length toks - length mrest) toks"
      by (auto simp: match_ref_def Let_def split: option.splits match_outcome.splits)
    with ml show ?thesis by auto
  qed
qed

lemma match_step_shrinks:
  assumes "shrinks rec"
  shows "shrinks (match_step re d rec)"
  unfolding shrinks_def
proof (intro allI impI)
  fix g toks cs rest
  assume m: "match_step re d rec g toks = Match cs rest"
  show "length rest \<le> length toks"
  proof (cases g)
    case (Terminal t ty)
    with m match_terminal_consumes [of re t ty toks cs rest] show ?thesis by simp
  next
    case (Sequence children)
    with m show ?thesis by (simp add: match_sequence_shrinks [OF assms])
  next
    case (OneOf alternatives)
    with m show ?thesis by (simp add: match_one_of_shrinks [OF assms])
  next
    case (Bracketed inner bt bps)
    with m show ?thesis by (simp add: match_bracketed_shrinks [OF assms])
  next
    case (Delimited elem delim allow)
    with m show ?thesis by (simp add: match_delimited_shrinks [OF assms])
  next
    case (AnyNumberOf g' mn mx)
    with m show ?thesis by (simp add: match_any_number_of_shrinks(1))
  next
    case (StartsWith anchor terminator enforce)
    with m have "match_starts_with rec anchor terminator enforce toks = Match cs rest" by simp
    then obtain acs arest where "rec anchor toks = Match acs arest" and "length rest \<le> length arest"
      by (rule match_starts_with_shrinks)
    with shrinksD [OF assms] show ?thesis by fastforce
  next
    case (Ref name)
    with m show ?thesis by (simp add: match_ref_shrinks [OF assms])
  next
    case Anything
    with m show ?thesis by auto
  next
    case Nothing
    with m show ?thesis by simp
  next
    case Indent
    with m show ?thesis by auto
  next
    case Dedent
    with m show ?thesis by auto
  qed
qed

lemma match_fuel_shrinks: "shrinks (match_fuel n re d)"
proof (induction n)
  case 0
  show ?case by (simp add: shrinks_def)
next
  case (Suc n)
  then show ?case by (simp add: match_step_shrinks)
qed

subsection \<open>Grammars that consume\<close>

lemma match_elements_consumes:
  assumes "shrinks later" and "consumes later g"
  shows "shrinks first \<Longrightarrow> consumes first g \<Longrightarrow> (g, False) \<in> set children \<Longrightarrow>
         match_elements first later children toks = Match cs rest \<Longrightarrow>
         length rest < length toks"
proof (induction children arbitrary: first toks cs rest)
  case Nil
  then show ?case by simp
next
  case (Cons c children)
  obtain g' optional where c: "c = (g', optional)" by (cases c)
  show ?case
  proof (cases "first g' toks")
    case OutOfFuel
    with Cons.prems c show ?thesis by simp
  next
    case NoMatch
    with Cons.prems(4) c have opt: optional
      and m: "match_elements first later children toks = Match cs rest"
      by (simp_all split: if_splits)
    from opt c Cons.prems(3) have "(g, False) \<in> set children" by auto
    from Cons.IH [OF Cons.prems(1) Cons.prems(2) this m] show ?thesis .
  next
    case (Match cs1 rest1)
    with Cons.prems(4) c obtain cs2 where
      m2: "match_elements later later children rest1 = Match cs2 rest"
      by (auto split: match_outcome.splits)
    note le1 = shrinksD [OF Cons.prems(1) Match]
    note le2 = match_elements_shrinks [OF assms(1) assms(1) m2]
    show ?thesis
    proof (cases "c = (g, False)")
      case True
      with c Match have "first g toks = Match cs1 rest1" by simp
      from consumesD [OF Cons.prems(2) this] le2 show ?thesis by simp
    next
      case False
      with Cons.prems(3) have "(g, False) \<in> set children" by simp
      from Cons.IH [OF assms(1) assms(2) this m2] le1 show ?thesis by simp
    qed
  qed
qed

lemma match_sequence_consumes:
  assumes "shrinks rec" and "consumes rec g" and "(g, False) \<in> set children"
    and "match_sequence rec children toks = Match cs rest"
  shows "length rest < length toks"
  using match_elements_consumes [OF with_gap_shrinks [OF assms(1)] with_gap_consumes [OF assms(2)]
      assms(1) assms(2) assms(3)] assms(4)
  by (simp add: match_sequence_def)

lemma match_one_of_consumes:
  assumes "\<forall>g \<in> set alternatives. consumes rec g"
    and "match_one_of rec alternatives toks = Match cs rest"
  shows "length rest < length toks"
proof -
  from assms(2) obtain g where "g \<in> set alternatives" and m: "rec g toks = Match cs rest"
    by (rule match_one_of_member)
  with assms(1) have "consumes rec g" by simp
  from consumesD [OF this m] show ?thesis .
qed

lemma match_delimited_consumes:
  assumes "shrinks rec" and "consumes rec elem"
    and "match_delimited rec elem delim allow toks = Match cs rest"
  shows "length rest < length toks"
proof -
  from assms(3) obtain ecs erest cs2 where
    e: "rec elem toks = Match ecs erest"
    and t: "delimited_tail (with_gap rec) elem delim allow (length erest) erest = Some (cs2, rest)"
    by (rule match_delimited_Match)
  from consumesD [OF assms(2) e] delimited_tail_shrinks [OF with_gap_shrinks [OF assms(1)] t]
  show ?thesis by simp
qed

lemma match_bracketed_consumes:
  assumes "shrinks rec"
    and "\<And>ty start_ref end_ref.
           find (\<lambda>(ty, start_ref, end_ref). ty = bt) (bracket_sets d bps) = Some (ty, start_ref, end_ref)
           \<Longrightarrow> consumes rec (Ref start_ref) \<or> consumes rec inner \<or> consumes rec (Ref end_ref)"
    and "match_bracketed d rec inner bt bps toks = Match cs rest"
  shows "length rest < length toks"
proof -
  from assms(3) obtain ty start_ref end_ref where
    f: "find (\<lambda>(ty, start_ref, end_ref). ty = bt) (bracket_sets d bps) = Some (ty, start_ref, end_ref)"
    and m: "match_sequence rec [(Ref start_ref, False), (inner, False), (Ref end_ref, False)] toks
       = Match cs rest"
    by (rule match_bracketed_Match)
  from assms(2) [OF f] consider "consumes rec (Ref start_ref)" | "consumes rec inner"
    | "consumes rec (Ref end_ref)" by blast
  then show ?thesis
  proof cases
    case 1
    from match_sequence_consumes [OF assms(1) 1 _ m] show ?thesis by simp
  next
    case 2
    from match_sequence_consumes [OF assms(1) 2 _ m] show ?thesis by simp
  next
    case 3
    from match_sequence_consumes [OF assms(1) 3 _ m] show ?thesis by simp
  qed
qed

lemma match_starts_with_consumes:
  assumes "consumes rec anchor"
    and "match_starts_with rec anchor terminator enforce toks = Match cs rest"
  shows "length rest < length toks"
proof -
  from assms(2) obtain acs arest where a: "rec anchor toks = Match acs arest"
    and le: "length rest \<le> length arest"
    by (rule match_starts_with_shrinks)
  from consumesD [OF assms(1) a] le show ?thesis by simp
qed

lemma match_ref_consumes:
  assumes "shrinks rec"
    and "\<And>g. library d name = Some (GrammarEntry g) \<Longrightarrow> consumes rec g"
    and "\<And>ty mg pgo. library d name = Some (SegmentEntry ty mg pgo) \<Longrightarrow> consumes rec mg"
    and "match_ref d rec name toks = Match cs rest"
  shows "length rest < length toks"
proof (cases "library d name")
  case None
  with assms(4) show ?thesis by (simp add: match_ref_def)
next
  case (Some entry)
  show ?thesis
  proof (cases entry)
    case (GrammarEntry g)
    with Some have "consumes rec g" by (simp add: assms(2))
    moreover from assms(4) Some GrammarEntry have "rec g toks = Match cs rest"
      by (simp add: match_ref_def)
    ultimately show ?thesis by (rule consumesD)
  next
    case (SegmentEntry ty mg pgo)
    with Some have c: "consumes rec mg" by (simp add: assms(3))
    from assms(4) Some SegmentEntry obtain mcs mrest where m: "rec mg toks = Match mcs mrest"
      by (auto simp: match_ref_def split: match_outcome.splits)
    note ml = consumesD [OF c m]
    from assms(4) Some SegmentEntry m have "rest = mrest \<or> rest = drop (length toks - length mrest) toks"
      by (auto simp: match_ref_def Let_def split: option.splits match_outcome.splits)
    with ml show ?thesis by auto
  qed
qed

lemma surely_consumes_sound:
  "surely_consumes m d g \<Longrightarrow> consumes (match_fuel n re d) g"
proof (induction m arbitrary: g n)
  case 0
  then show ?case by simp
next
  case (Suc m)
  show ?case
  proof (cases n)
    case 0
    then show ?thesis by (simp add: consumes_def)
  next
    case (Suc n')
    let ?rec = "match_fuel n' re d"
    note sh = match_fuel_shrinks [of n' re d]
    show ?thesis
      unfolding consumes_def
    proof (intro allI impI)
      fix toks cs rest
      assume "match_fuel n re d g toks = Match cs rest"
      with Suc have m: "match_step re d ?rec g toks = Match cs rest" by simp
      show "length rest < length toks"
      proof (cases g)
        case (Terminal t ty)
        with m show ?thesis by (simp add: match_terminal_consumes)
      next
        case (Sequence children)
        with Suc.prems obtain c where c: "c \<in> set children" "\<not> snd c"
          and s: "surely_consumes m d (fst c)" by auto
        from c(2) have "(fst c, False) = c" by (simp add: prod_eq_iff)
        with c(1) have "(fst c, False) \<in> set children" by simp
        from match_sequence_consumes [OF sh Suc.IH [OF s] this] m Sequence
        show ?thesis by simp
      next
        case (OneOf alternatives)
        with Suc.prems Suc.IH have "\<forall>a \<in> set alternatives. consumes ?rec a" by simp
        from match_one_of_consumes [OF this] m OneOf show ?thesis by simp
      next
        case (Bracketed inner bt bps)
        have "\<And>ty start_ref end_ref.
           find (\<lambda>(ty, start_ref, end_ref). ty = bt) (bracket_sets d bps) = Some (ty, start_ref, end_ref)
           \<Longrightarrow> consumes ?rec (Ref start_ref) \<or> consumes ?rec inner \<or> consumes ?rec (Ref end_ref)"
          using Suc.prems Bracketed Suc.IH by auto
        from match_bracketed_consumes [OF sh this] m Bracketed show ?thesis by simp
      next
        case (Delimited elem delim allow)
        with Suc.prems Suc.IH have "consumes ?rec elem" by simp
        from match_delimited_consumes [OF sh this] m Delimited show ?thesis by simp
      next
        case (AnyNumberOf g' mn mx)
        with Suc.prems have "0 < mn" by simp
        with match_any_number_of_shrinks(2) m AnyNumberOf show ?thesis by simp
      next
        case (StartsWith anchor terminator enforce)
        with Suc.prems Suc.IH have "consumes ?rec anchor" by simp
        from match_starts_with_consumes [OF this] m StartsWith show ?thesis by simp
      next
        case (Ref name)
        have 1: "\<And>g. library d name = Some (GrammarEntry g) \<Longrightarrow> consumes ?rec g"
          using Suc.prems Ref Suc.IH by simp
        have 2: "\<And>ty mg pgo. library d name = Some (SegmentEntry ty mg pgo) \<Longrightarrow> consumes ?rec mg"
          using Suc.prems Ref Suc.IH by simp
        from match_ref_consumes [OF sh 1 2] m Ref show ?thesis by simp
      next
        case Anything
        with Suc.prems show ?thesis by simp
      next
        case Nothing
        with m show ?thesis by simp
      next
        case Indent
        with Suc.prems show ?thesis by simp
      next
        case Dedent
        with Suc.prems show ?thesis by simp
      qed
    qed
  qed
qed

subsection \<open>Enough fuel\<close>

lemma returns_uptoD:
  "returns_upto rec k g \<Longrightarrow> length toks \<le> k \<Longrightarrow> rec g toks \<noteq> OutOfFuel"
  by (simp add: returns_upto_def)

lemma with_gap_returns:
  assumes "returns_upto rec k g"
  shows "returns_upto (with_gap rec) k g"
  unfolding returns_upto_def
proof (intro allI impI)
  fix toks :: "raw_segment list"
  assume "length toks \<le> k"
  with length_dropWhile_le [of is_trivia toks] have "length (dropWhile is_trivia toks) \<le> k"
    by simp
  from returns_uptoD [OF assms this] show "with_gap rec g toks \<noteq> OutOfFuel"
    by (simp add: with_gap_def split: match_outcome.splits)
qed

lemma match_elements_returns:
  assumes "shrinks later"
    and "\<And>g. consuming g \<Longrightarrow> consumes later g"
    and "\<And>k g. covers k g \<Longrightarrow> returns_upto later k g"
  shows "shrinks first \<Longrightarrow> (\<And>g. consuming g \<Longrightarrow> consumes first g) \<Longrightarrow>
         (\<And>k g. covers k g \<Longrightarrow> returns_upto first k g) \<Longrightarrow>
         covers_elements covers consuming k children \<Longrightarrow> length toks \<le> k \<Longrightarrow>
         match_elements first later children toks \<noteq> OutOfFuel"
proof (induction children arbitrary: first toks k)
  case Nil
  show ?case by simp
next
  case (Cons c children)
  obtain g optional where c: "c = (g, optional)" by (cases c)
  from Cons.prems(4) c have cg: "covers k g" by simp
  from returns_uptoD [OF Cons.prems(3) [OF cg] Cons.prems(5)]
  have g: "first g toks \<noteq> OutOfFuel" .
  show ?case
  proof (cases "first g toks")
    case OutOfFuel
    with g show ?thesis by simp
  next
    case NoMatch
    show ?thesis
    proof (cases optional)
      case False
      with NoMatch c show ?thesis by simp
    next
      case True
      with Cons.prems(4) c have "covers_elements covers consuming k children"
        by (simp split: if_splits)
      from Cons.IH [OF Cons.prems(1) Cons.prems(2) Cons.prems(3) this Cons.prems(5)]
      have "match_elements first later children toks \<noteq> OutOfFuel" .
      with NoMatch c True show ?thesis by simp
    qed
  next
    case (Match cs rest)
    have "\<exists>k'. covers_elements covers consuming k' children \<and> length rest \<le> k'"
    proof (cases "consuming g")
      case True
      from consumesD [OF Cons.prems(2) [OF True] Match] Cons.prems(5)
      have lt: "length rest < k" by simp
      then have "k \<noteq> 0" by simp
      with Cons.prems(4) c True have "covers_elements covers consuming (k - 1) children"
        by simp
      moreover from lt have "length rest \<le> k - 1" by simp
      ultimately show ?thesis by blast
    next
      case False
      with Cons.prems(4) c have "covers_elements covers consuming k children" by simp
      moreover from shrinksD [OF Cons.prems(1) Match] Cons.prems(5) have "length rest \<le> k"
        by simp
      ultimately show ?thesis by blast
    qed
    then obtain k' where ce: "covers_elements covers consuming k' children"
      and le: "length rest \<le> k'" by blast
    from Cons.IH [OF assms(1) assms(2) assms(3) ce le]
    have "match_elements later later children rest \<noteq> OutOfFuel" .
    with Match c show ?thesis by (simp split: match_outcome.splits)
  qed
qed

lemma match_sequence_returns:
  assumes "shrinks rec"
    and "\<And>g. consuming g \<Longrightarrow> consumes rec g"
    and "\<And>k g. covers k g \<Longrightarrow> returns_upto rec k g"
    and "covers_elements covers consuming k children" and "length toks \<le> k"
  shows "match_sequence rec children toks \<noteq> OutOfFuel"
  unfolding match_sequence_def
proof (rule match_elements_returns [where consuming = consuming and covers = covers and k = k])
  show "shrinks (with_gap rec)" using assms(1) by (rule with_gap_shrinks)
  show "\<And>g. consuming g \<Longrightarrow> consumes (with_gap rec) g"
    using assms(2) by (simp add: with_gap_consumes)
  show "\<And>k g. covers k g \<Longrightarrow> returns_upto (with_gap rec) k g"
    using assms(3) by (simp add: with_gap_returns)
  show "shrinks rec" by (rule assms(1))
  show "\<And>g. consuming g \<Longrightarrow> consumes rec g" by (rule assms(2))
  show "\<And>k g. covers k g \<Longrightarrow> returns_upto rec k g" by (rule assms(3))
  show "covers_elements covers consuming k children" by (rule assms(4))
  show "length toks \<le> k" by (rule assms(5))
qed

lemma foldl_longest_returns:
  "acc \<noteq> OutOfFuel \<Longrightarrow> OutOfFuel \<notin> set rs \<Longrightarrow>
   foldl (longest toks) acc rs \<noteq> OutOfFuel"
proof (induction rs arbitrary: acc)
  case Nil
  then show ?case by simp
next
  case (Cons r rs)
  from Cons.prems have "longest toks acc r \<noteq> OutOfFuel"
    by (cases acc; cases r) auto
  with Cons show ?case by simp
qed

lemma match_one_of_returns:
  assumes "\<forall>g \<in> set alternatives. returns_upto rec k g" and "length toks \<le> k"
  shows "match_one_of rec alternatives toks \<noteq> OutOfFuel"
proof -
  have "OutOfFuel \<notin> set (map (\<lambda>g. rec g toks) alternatives)"
  proof
    assume "OutOfFuel \<in> set (map (\<lambda>g. rec g toks) alternatives)"
    then obtain g where "g \<in> set alternatives" and "rec g toks = OutOfFuel" by auto
    with assms show False by (simp add: returns_upto_def)
  qed
  then show ?thesis
    unfolding match_one_of_def by (intro foldl_longest_returns) simp_all
qed

lemma match_repeat_returns:
  assumes "returns_upto later k0 g"
  shows "returns_upto first k0 g \<Longrightarrow> length toks \<le> k0 \<Longrightarrow>
         \<exists>r. match_repeat first later g k toks = Some r"
proof (induction k arbitrary: first toks)
  case 0
  show ?case by simp
next
  case (Suc k)
  from returns_uptoD [OF Suc.prems] have g: "first g toks \<noteq> OutOfFuel" .
  show ?case
  proof (cases "first g toks")
    case OutOfFuel
    with g show ?thesis by simp
  next
    case NoMatch
    then show ?thesis by simp
  next
    case (Match cs rest)
    show ?thesis
    proof (cases "length rest < length toks")
      case False
      with Match show ?thesis by simp
    next
      case True
      with Suc.prems(2) have "length rest \<le> k0" by simp
      from Suc.IH [OF assms this] obtain cs' n rest' where
        "match_repeat later later g k rest = Some (cs', n, rest')"
        by (metis prod_cases3)
      with Match True show ?thesis by simp
    qed
  qed
qed

lemma match_any_number_of_returns:
  assumes "returns_upto rec k g" and "length toks \<le> k"
  shows "match_any_number_of rec g mn mx toks \<noteq> OutOfFuel"
proof -
  from match_repeat_returns [OF with_gap_returns [OF assms(1)] assms(1) assms(2)]
  obtain cs n rest where
    "match_repeat rec (with_gap rec) g
       (case mx of None \<Rightarrow> length toks | Some m \<Rightarrow> min m (length toks)) toks
       = Some (cs, n, rest)"
    by (metis prod_cases3)
  then show ?thesis by (simp add: match_any_number_of_def)
qed

lemma delimited_tail_returns:
  assumes "shrinks rec" and "returns_upto rec k0 elem" and "returns_upto rec k0 delim"
  shows "length toks \<le> k0 \<Longrightarrow> \<exists>r. delimited_tail rec elem delim allow k toks = Some r"
proof (induction k arbitrary: toks)
  case 0
  show ?case by simp
next
  case (Suc k)
  show ?case
  proof (cases "rec delim toks")
    case OutOfFuel
    with returns_uptoD [OF assms(3) Suc.prems] show ?thesis by simp
  next
    case NoMatch
    then show ?thesis by simp
  next
    case (Match dcs drest)
    note d = this
    show ?thesis
    proof (cases "length drest < length toks")
      case False
      with d show ?thesis by simp
    next
      case True
      with Suc.prems have dl: "length drest \<le> k0" by simp
      show ?thesis
      proof (cases "rec elem drest")
        case OutOfFuel
        with returns_uptoD [OF assms(2) dl] show ?thesis by simp
      next
        case NoMatch
        with d True show ?thesis by simp
      next
        case (Match ecs erest)
        from shrinksD [OF assms(1) Match] dl have "length erest \<le> k0" by simp
        from Suc.IH [OF this] obtain cs rest where
          "delimited_tail rec elem delim allow k erest = Some (cs, rest)"
          by (metis surj_pair)
        with d True Match show ?thesis by simp
      qed
    qed
  qed
qed

lemma returns_upto_less:
  "returns_upto rec k g \<Longrightarrow> k' \<le> k \<Longrightarrow> returns_upto rec k' g"
  by (simp add: returns_upto_def)

lemma after_consuming:
  assumes "shrinks rec" and "consuming g \<Longrightarrow> consumes rec g"
    and "if consuming g then k = 0 \<or> returns_upto rec (k - 1) g' else returns_upto rec k g'"
    and "rec g toks = Match cs rest" and "length toks \<le> k"
  obtains k' where "k' \<le> k" and "length rest \<le> k'" and "returns_upto rec k' g'"
proof (cases "consuming g")
  case True
  from consumesD [OF assms(2) [OF True] assms(4)] assms(5) have lt: "length rest < k" by simp
  with assms(3) True have "returns_upto rec (k - 1) g'" by simp
  moreover from lt have "length rest \<le> k - 1" by simp
  ultimately show thesis using that [of "k - 1"] by simp
next
  case False
  with assms(3) have "returns_upto rec k g'" by simp
  moreover from shrinksD [OF assms(1) assms(4)] assms(5) have "length rest \<le> k" by simp
  ultimately show thesis using that [of k] by simp
qed

lemma match_delimited_returns:
  assumes "shrinks rec" and "consuming elem \<Longrightarrow> consumes rec elem"
    and "returns_upto rec k elem"
    and "if consuming elem then k = 0 \<or> returns_upto rec (k - 1) delim
         else returns_upto rec k delim"
    and "length toks \<le> k"
  shows "match_delimited rec elem delim allow toks \<noteq> OutOfFuel"
proof (cases "rec elem toks")
  case OutOfFuel
  with returns_uptoD [OF assms(3) assms(5)] show ?thesis by simp
next
  case NoMatch
  then show ?thesis by (simp add: match_delimited_def)
next
  case (Match ecs erest)
  from assms(1) assms(2) assms(4) Match assms(5) obtain k' where
    k': "k' \<le> k" and le: "length erest \<le> k'" and d: "returns_upto rec k' delim"
    by (rule after_consuming)
  from returns_upto_less [OF assms(3) k'] have e: "returns_upto rec k' elem" .
  from delimited_tail_returns [OF with_gap_shrinks [OF assms(1)]
      with_gap_returns [OF e] with_gap_returns [OF d] le]
  obtain cs rest where
    "delimited_tail (with_gap rec) elem delim allow (length erest) erest = Some (cs, rest)"
    by (metis surj_pair)
  with Match show ?thesis by (simp add: match_delimited_def)
qed

lemma scan_to_terminator_returns:
  assumes "returns_upto rec k t"
  shows "length toks \<le> k \<Longrightarrow> \<exists>r. scan_to_terminator rec t enforce after_ws toks = Some r"
proof (induction toks arbitrary: after_ws)
  case Nil
  show ?case by simp
next
  case (Cons tok others)
  from Cons.prems have "length others \<le> k" by simp
  from Cons.IH [OF this, of "seg_class tok = WhitespaceSegment"] obtain interior rest where
    ih: "scan_to_terminator rec t enforce (seg_class tok = WhitespaceSegment) others
       = Some (interior, rest)"
    by (metis surj_pair)
  show ?case
  proof (cases "if enforce \<and> \<not> after_ws then NoMatch else rec t (tok # others)")
    case OutOfFuel
    with returns_uptoD [OF assms Cons.prems] show ?thesis by (simp split: if_splits)
  next
    case NoMatch
    with ih show ?thesis by simp
  next
    case (Match cs rest')
    then show ?thesis by simp
  qed
qed

lemma match_starts_with_returns:
  assumes "shrinks rec" and "consuming anchor \<Longrightarrow> consumes rec anchor"
    and "returns_upto rec k anchor"
    and "case terminator of
           None \<Rightarrow> True
         | Some t \<Rightarrow> if consuming anchor then k = 0 \<or> returns_upto rec (k - 1) t
                    else returns_upto rec k t"
    and "length toks \<le> k"
  shows "match_starts_with rec anchor terminator enforce toks \<noteq> OutOfFuel"
proof (cases "rec anchor toks")
  case OutOfFuel
  with returns_uptoD [OF assms(3) assms(5)] show ?thesis by simp
next
  case NoMatch
  then show ?thesis by (simp add: match_starts_with_def)
next
  case (Match acs arest)
  show ?thesis
  proof (cases terminator)
    case None
    with Match show ?thesis by (simp add: match_starts_with_def)
  next
    case (Some t)
    with assms(4) have "if consuming anchor then k = 0 \<or> returns_upto rec (k - 1) t
      else returns_upto rec k t" by simp
    with assms(1) assms(2) obtain k' where
      le: "length arest \<le> k'" and t: "returns_upto rec k' t"
      using Match assms(5) by (rule after_consuming)
    from scan_to_terminator_returns [OF t le] obtain interior rest where
      "scan_to_terminator rec t enforce False arest = Some (interior, rest)"
      by (metis surj_pair)
    with Match Some show ?thesis by (simp add: match_starts_with_def)
  qed
qed

lemma match_bracketed_returns:
  assumes "shrinks rec"
    and "\<And>g. consuming g \<Longrightarrow> consumes rec g"
    and "\<And>k g. covers k g \<Longrightarrow> returns_upto rec k g"
    and "case find (\<lambda>(ty, start_ref, end_ref). ty = bt) (bracket_sets d bps) of
        None \<Rightarrow> True
      | Some (ty, start_ref, end_ref) \<Rightarrow>
          covers_elements covers consuming k
            [(Ref start_ref, False), (inner, False), (Ref end_ref, False)]"
    and "length toks \<le> k"
  shows "match_bracketed d rec inner bt bps toks \<noteq> OutOfFuel"
proof (cases "find (\<lambda>(ty, start_ref, end_ref). ty = bt) (bracket_sets d bps)")
  case None
  then show ?thesis by (simp add: match_bracketed_def)
next
  case (Some p)
  obtain ty start_ref end_ref where p: "p = (ty, start_ref, end_ref)" by (cases p)
  with assms(4) Some have
    "covers_elements covers consuming k [(Ref start_ref, False), (inner, False), (Ref end_ref, False)]"
    by (simp del: covers_elements.simps)
  from match_sequence_returns [of rec consuming covers, OF assms(1) assms(2) assms(3) this assms(5)]
    Some p show ?thesis
    by (simp add: match_bracketed_def)
qed

lemma match_ref_returns:
  assumes "shrinks rec"
    and "case library d name of
        None \<Rightarrow> True
      | Some (GrammarEntry g) \<Rightarrow> returns_upto rec k g
      | Some (SegmentEntry ty mg parse_grammar) \<Rightarrow>
          returns_upto rec k mg
          \<and> (case parse_grammar of None \<Rightarrow> True | Some pg \<Rightarrow> returns_upto rec k pg)"
    and "length toks \<le> k"
  shows "match_ref d rec name toks \<noteq> OutOfFuel"
proof (cases "library d name")
  case None
  then show ?thesis by (simp add: match_ref_def)
next
  case (Some entry)
  show ?thesis
  proof (cases entry)
    case (GrammarEntry g)
    with assms Some show ?thesis by (simp add: match_ref_def returns_upto_def)
  next
    case (SegmentEntry ty mg pgo)
    with assms(2) Some have m: "returns_upto rec k mg"
      and p: "case pgo of None \<Rightarrow> True | Some pg \<Rightarrow> returns_upto rec k pg"
      by simp_all
    show ?thesis
    proof (cases "rec mg toks")
      case OutOfFuel
      with returns_uptoD [OF m assms(3)] show ?thesis by simp
    next
      case NoMatch
      with Some SegmentEntry show ?thesis by (simp add: match_ref_def)
    next
      case (Match mcs mrest)
      show ?thesis
      proof (cases pgo)
        case None
        with Some SegmentEntry Match show ?thesis by (simp add: match_ref_def)
      next
        case (Some pg)
        with p have pg: "returns_upto rec k pg" by simp
        from assms(3) have "length (take (length toks - length mrest) toks) \<le> k" by simp
        from returns_uptoD [OF pg this]
        have "rec pg (take (length toks - length mrest) toks) \<noteq> OutOfFuel" .
        with \<open>library d name = Some entry\<close> SegmentEntry Match Some show ?thesis
          by (simp add: match_ref_def Let_def split: match_outcome.splits)
      qed
    qed
  qed
qed

lemma match_fuel_returns:
  "fuel_covers n d k g \<Longrightarrow> returns_upto (match_fuel n re d) k g"
proof (induction n arbitrary: g k)
  case 0
  then show ?case by simp
next
  case (Suc n)
  let ?rec = "match_fuel n re d"
  note sh = match_fuel_shrinks [of n re d]
  have co: "\<And>g. surely_consumes n d g \<Longrightarrow> consumes ?rec g"
    by (rule surely_consumes_sound)
  have ih: "\<And>k g. fuel_covers n d k g \<Longrightarrow> returns_upto ?rec k g"
    by (rule Suc.IH)
  from Suc.prems have cs: "covers_step d (fuel_covers n d) (surely_consumes n d) k g" by simp
  show ?case
    unfolding returns_upto_def
  proof (intro allI impI)
    fix toks :: "raw_segment list"
    assume le: "length toks \<le> k"
    show "match_fuel (Suc n) re d g toks \<noteq> OutOfFuel"
    proof (cases g)
      case (Terminal t ty)
      then show ?thesis by (auto simp: match_terminal_def split: list.splits)
    next
      case (Sequence children)
      with cs have "covers_elements (fuel_covers n d) (surely_consumes n d) k children" by simp
      from match_sequence_returns [of ?rec "surely_consumes n d" "fuel_covers n d",
          OF sh co ih this le] Sequence
      show ?thesis by simp
    next
      case (OneOf alternatives)
      with cs ih have "\<forall>a \<in> set alternatives. returns_upto ?rec k a" by simp
      from match_one_of_returns [OF this le] OneOf show ?thesis by simp
    next
      case (Bracketed inner bt bps)
      with cs have "case find (\<lambda>(ty, start_ref, end_ref). ty = bt) (bracket_sets d bps) of
        None \<Rightarrow> True
      | Some (ty, start_ref, end_ref) \<Rightarrow>
          covers_elements (fuel_covers n d) (surely_consumes n d) k
            [(Ref start_ref, False), (inner, False), (Ref end_ref, False)]"
        by (simp del: covers_elements.simps)
      from match_bracketed_returns [of ?rec "surely_consumes n d" "fuel_covers n d",
          OF sh co ih this le] Bracketed
      show ?thesis by simp
    next
      case (Delimited elem delim allow)
      with cs ih have e: "returns_upto ?rec k elem" by simp
      have dl: "if surely_consumes n d elem then k = 0 \<or> returns_upto ?rec (k - 1) delim
          else returns_upto ?rec k delim"
        using cs Delimited ih by (auto split: if_splits)
      from match_delimited_returns [of ?rec "surely_consumes n d", OF sh co e dl le] Delimited
      show ?thesis by simp
    next
      case (AnyNumberOf g' mn mx)
      with cs ih have "returns_upto ?rec k g'" by simp
      from match_any_number_of_returns [OF this le] AnyNumberOf show ?thesis by simp
    next
      case (StartsWith anchor terminator enforce)
      with cs ih have a: "returns_upto ?rec k anchor" by simp
      have t: "case terminator of
           None \<Rightarrow> True
         | Some t \<Rightarrow> if surely_consumes n d anchor then k = 0 \<or> returns_upto ?rec (k - 1) t
                    else returns_upto ?rec k t"
        using cs StartsWith ih by (auto split: option.splits if_splits)
      from match_starts_with_returns [of ?rec "surely_consumes n d", OF sh co a t le] StartsWith
      show ?thesis by simp
    next
      case (Ref name)
      with cs ih have "case library d name of
        None \<Rightarrow> True
      | Some (GrammarEntry g) \<Rightarrow> returns_upto ?rec k g
      | Some (SegmentEntry ty mg parse_grammar) \<Rightarrow>
          returns_upto ?rec k mg
          \<and> (case parse_grammar of None \<Rightarrow> True | Some pg \<Rightarrow> returns_upto ?rec k pg)"
        by (auto split: option.splits library_entry.splits)
      from match_ref_returns [OF sh this le] Ref show ?thesis by simp
    next
      case Anything
      then show ?thesis by simp
    next
      case Nothing
      then show ?thesis by simp
    next
      case Indent
      then show ?thesis by simp
    next
      case Dedent
      then show ?thesis by simp
    qed
  qed
qed

lemma parse_returns:
  assumes "fuel_covers fuel d (length (lex re (lexer_matchers d) 0 inp)) (Ref (root_grammar d))"
  shows "\<exists>tree. parse fuel re d inp = Some tree"
proof -
  from returns_uptoD [OF match_fuel_returns [OF assms, of re] order_refl]
  have "match_fuel fuel re d (Ref (root_grammar d)) (lex re (lexer_matchers d) 0 inp) \<noteq> OutOfFuel" .
  then show ?thesis
    by (cases "match_fuel fuel re d (Ref (root_grammar d)) (lex re (lexer_matchers d) 0 inp)")
       (simp_all add: parse_def)
qed

subsection \<open>More fuel, the same outcome\<close>

lemma extendsD:
  "extends rec rec' \<Longrightarrow> rec g toks \<noteq> OutOfFuel \<Longrightarrow> rec' g toks = rec g toks"
  by (simp add: extends_def)

lemma with_gap_extends:
  assumes "extends rec rec'"
  shows "extends (with_gap rec) (with_gap rec')"
  unfolding extends_def
proof (intro allI impI)
  fix g toks
  assume "with_gap rec g toks \<noteq> OutOfFuel"
  then have "rec g (dropWhile is_trivia toks) \<noteq> OutOfFuel"
    by (auto simp: with_gap_def)
  from extendsD [OF assms this] show "with_gap rec' g toks = with_gap rec g toks"
    by (simp add: with_gap_def)
qed

lemma match_elements_extends:
  assumes "extends later later'"
  shows "extends first first' \<Longrightarrow> match_elements first later children toks \<noteq> OutOfFuel \<Longrightarrow>
         match_elements first' later' children toks = match_elements first later children toks"
proof (induction children arbitrary: first first' toks)
  case Nil
  show ?case by simp
next
  case (Cons c children)
  obtain g optional where c: "c = (g, optional)" by (cases c)
  from Cons.prems(2) c have g: "first g toks \<noteq> OutOfFuel"
    by (auto split: match_outcome.splits)
  note eq = extendsD [OF Cons.prems(1) g]
  show ?case
  proof (cases "first g toks")
    case OutOfFuel
    with g show ?thesis by simp
  next
    case NoMatch
    show ?thesis
    proof (cases optional)
      case False
      with NoMatch eq c show ?thesis by simp
    next
      case True
      with Cons.prems(2) c NoMatch
      have "match_elements first later children toks \<noteq> OutOfFuel" by simp
      from Cons.IH [OF Cons.prems(1) this] NoMatch eq c True show ?thesis by simp
    qed
  next
    case (Match cs rest)
    with Cons.prems(2) c have "match_elements later later children rest \<noteq> OutOfFuel"
      by (auto split: match_outcome.splits)
    from Cons.IH [OF assms this] Match eq c show ?thesis by simp
  qed
qed

lemma match_sequence_extends:
  assumes "extends rec rec'" and "match_sequence rec children toks \<noteq> OutOfFuel"
  shows "match_sequence rec' children toks = match_sequence rec children toks"
  using match_elements_extends [OF with_gap_extends [OF assms(1)] assms(1)] assms(2)
  by (simp add: match_sequence_def)

lemma match_one_of_extends:
  assumes "extends rec rec'" and "match_one_of rec alternatives toks \<noteq> OutOfFuel"
  shows "match_one_of rec' alternatives toks = match_one_of rec alternatives toks"
proof -
  have "OutOfFuel \<notin> set (map (\<lambda>g. rec g toks) alternatives)"
    using assms(2) foldl_longest_out_of_fuel [of NoMatch "map (\<lambda>g. rec g toks) alternatives" toks]
    unfolding match_one_of_def by blast
  then have "\<forall>g \<in> set alternatives. rec g toks \<noteq> OutOfFuel" by (auto simp: image_def)
  with assms(1) have "map (\<lambda>g. rec' g toks) alternatives = map (\<lambda>g. rec g toks) alternatives"
    by (simp add: extends_def)
  then show ?thesis by (simp only: match_one_of_def)
qed

lemma match_repeat_extends:
  assumes "extends later later'"
  shows "extends first first' \<Longrightarrow> match_repeat first later g k toks \<noteq> None \<Longrightarrow>
         match_repeat first' later' g k toks = match_repeat first later g k toks"
proof (induction k arbitrary: first first' toks)
  case 0
  show ?case by simp
next
  case (Suc k)
  from Suc.prems(2) have g: "first g toks \<noteq> OutOfFuel"
    by (auto split: match_outcome.splits)
  note eq = extendsD [OF Suc.prems(1) g]
  show ?case
  proof (cases "first g toks")
    case OutOfFuel
    with g show ?thesis by simp
  next
    case NoMatch
    with eq show ?thesis by simp
  next
    case (Match cs rest)
    show ?thesis
    proof (cases "length rest < length toks")
      case False
      with Match eq show ?thesis by simp
    next
      case True
      with Suc.prems(2) Match have "match_repeat later later g k rest \<noteq> None"
        by (auto split: option.splits)
      from Suc.IH [OF assms this] Match eq True show ?thesis by simp
    qed
  qed
qed

lemma match_any_number_of_extends:
  assumes "extends rec rec'" and "match_any_number_of rec g mn mx toks \<noteq> OutOfFuel"
  shows "match_any_number_of rec' g mn mx toks = match_any_number_of rec g mn mx toks"
proof -
  let ?k = "case mx of None \<Rightarrow> length toks | Some m \<Rightarrow> min m (length toks)"
  from assms(2) have "match_repeat rec (with_gap rec) g ?k toks \<noteq> None"
    by (auto simp: match_any_number_of_def split: option.splits)
  from match_repeat_extends [OF with_gap_extends [OF assms(1)] assms(1) this]
  show ?thesis by (simp add: match_any_number_of_def)
qed

lemma delimited_tail_extends:
  assumes "extends rec rec'"
  shows "delimited_tail rec elem delim allow k toks \<noteq> None \<Longrightarrow>
         delimited_tail rec' elem delim allow k toks = delimited_tail rec elem delim allow k toks"
proof (induction k arbitrary: toks)
  case 0
  show ?case by simp
next
  case (Suc k)
  from Suc.prems have d: "rec delim toks \<noteq> OutOfFuel"
    by (auto split: match_outcome.splits)
  note deq = extendsD [OF assms d]
  show ?case
  proof (cases "rec delim toks")
    case OutOfFuel
    with d show ?thesis by simp
  next
    case NoMatch
    with deq show ?thesis by simp
  next
    case (Match dcs drest)
    note dm = this
    show ?thesis
    proof (cases "length drest < length toks")
      case False
      with dm deq show ?thesis by simp
    next
      case True
      with Suc.prems dm have e: "rec elem drest \<noteq> OutOfFuel"
        by (auto split: match_outcome.splits)
      note eeq = extendsD [OF assms e]
      show ?thesis
      proof (cases "rec elem drest")
        case OutOfFuel
        with e show ?thesis by simp
      next
        case NoMatch
        with dm deq eeq True show ?thesis by simp
      next
        case (Match ecs erest)
        with Suc.prems dm True have "delimited_tail rec elem delim allow k erest \<noteq> None"
          by (auto split: option.splits)
        from Suc.IH [OF this] dm deq eeq True Match show ?thesis by simp
      qed
    qed
  qed
qed

lemma match_delimited_extends:
  assumes "extends rec rec'" and "match_delimited rec elem delim allow toks \<noteq> OutOfFuel"
  shows "match_delimited rec' elem delim allow toks = match_delimited rec elem delim allow toks"
proof -
  from assms(2) have e: "rec elem toks \<noteq> OutOfFuel"
    by (auto simp: match_delimited_def)
  note eeq = extendsD [OF assms(1) e]
  show ?thesis
  proof (cases "rec elem toks")
    case OutOfFuel
    with e show ?thesis by simp
  next
    case NoMatch
    with eeq show ?thesis by (simp add: match_delimited_def)
  next
    case (Match ecs erest)
    with assms(2) have
      "delimited_tail (with_gap rec) elem delim allow (length erest) erest \<noteq> None"
      by (auto simp: match_delimited_def split: option.splits)
    from delimited_tail_extends [OF with_gap_extends [OF assms(1)] this] Match eeq
    show ?thesis by (simp add: match_delimited_def)
  qed
qed

lemma match_bracketed_extends:
  assumes "extends rec rec'" and "match_bracketed d rec inner bt bps toks \<noteq> OutOfFuel"
  shows "match_bracketed d rec' inner bt bps toks = match_bracketed d rec inner bt bps toks"
proof (cases "find (\<lambda>(ty, start_ref, end_ref). ty = bt) (bracket_sets d bps)")
  case None
  then show ?thesis by (simp add: match_bracketed_def)
next
  case (Some p)
  obtain ty start_ref end_ref where p: "p = (ty, start_ref, end_ref)" by (cases p)
  with assms(2) Some have
    "match_sequence rec [(Ref start_ref, False), (inner, False), (Ref end_ref, False)] toks
       \<noteq> OutOfFuel"
    by (simp add: match_bracketed_def)
  from match_sequence_extends [OF assms(1) this] Some p show ?thesis
    by (simp add: match_bracketed_def)
qed

lemma scan_to_terminator_extends:
  assumes "extends rec rec'"
  shows "scan_to_terminator rec t enforce after_ws toks \<noteq> None \<Longrightarrow>
         scan_to_terminator rec' t enforce after_ws toks = scan_to_terminator rec t enforce after_ws toks"
proof (induction toks arbitrary: after_ws)
  case Nil
  show ?case by simp
next
  case (Cons tok others)
  let ?r = "if enforce \<and> \<not> after_ws then NoMatch else rec t (tok # others)"
  let ?r' = "if enforce \<and> \<not> after_ws then NoMatch else rec' t (tok # others)"
  from Cons.prems have r: "?r \<noteq> OutOfFuel"
    by (auto split: match_outcome.splits)
  have eq: "?r' = ?r"
  proof (cases "enforce \<and> \<not> after_ws")
    case True
    then show ?thesis by simp
  next
    case False
    from r have "rec t (tok # others) \<noteq> OutOfFuel"
      unfolding if_not_P [OF False] .
    from extendsD [OF assms this] show ?thesis
      unfolding if_not_P [OF False] .
  qed
  show ?case
  proof (cases ?r)
    case OutOfFuel
    with r show ?thesis by simp
  next
    case NoMatch
    with Cons.prems have
      "scan_to_terminator rec t enforce (seg_class tok = WhitespaceSegment) others \<noteq> None"
      by (auto split: option.splits)
    from Cons.IH [OF this] NoMatch eq show ?thesis
      by (simp only: scan_to_terminator.simps match_outcome.case)
  next
    case (Match cs rest)
    with eq show ?thesis by (simp only: scan_to_terminator.simps match_outcome.case)
  qed
qed

lemma match_starts_with_extends:
  assumes "extends rec rec'" and "match_starts_with rec anchor terminator enforce toks \<noteq> OutOfFuel"
  shows "match_starts_with rec' anchor terminator enforce toks
       = match_starts_with rec anchor terminator enforce toks"
proof -
  from assms(2) have a: "rec anchor toks \<noteq> OutOfFuel"
    by (auto simp: match_starts_with_def)
  note aeq = extendsD [OF assms(1) a]
  show ?thesis
  proof (cases "rec anchor toks")
    case OutOfFuel
    with a show ?thesis by simp
  next
    case NoMatch
    with aeq show ?thesis by (simp add: match_starts_with_def)
  next
    case (Match acs arest)
    show ?thesis
    proof (cases terminator)
      case None
      with Match aeq show ?thesis by (simp add: match_starts_with_def)
    next
      case (Some t)
      with assms(2) Match have "scan_to_terminator rec t enforce False arest \<noteq> None"
        by (auto simp: match_starts_with_def split: option.splits)
      from scan_to_terminator_extends [OF assms(1) this] Match aeq Some show ?thesis
        by (simp add: match_starts_with_def)
    qed
  qed
qed

lemma match_ref_extends:
  assumes "extends rec rec'" and "match_ref d rec name toks \<noteq> OutOfFuel"
  shows "match_ref d rec' name toks = match_ref d rec name toks"
proof (cases "library d name")
  case None
  then show ?thesis by (simp add: match_ref_def)
next
  case (Some entry)
  show ?thesis
  proof (cases entry)
    case (GrammarEntry g)
    with assms Some show ?thesis by (simp add: match_ref_def extendsD)
  next
    case (SegmentEntry ty mg pgo)
    with assms(2) Some have m: "rec mg toks \<noteq> OutOfFuel"
      by (auto simp: match_ref_def)
    note meq = extendsD [OF assms(1) m]
    show ?thesis
    proof (cases "rec mg toks")
      case OutOfFuel
      with m show ?thesis by simp
    next
      case NoMatch
      with meq Some SegmentEntry show ?thesis by (simp add: match_ref_def)
    next
      case (Match mcs mrest)
      show ?thesis
      proof (cases pgo)
        case None
        with Some SegmentEntry Match meq show ?thesis by (simp add: match_ref_def)
      next
        case (Some pg)
        with assms(2) \<open>library d name = Some entry\<close> SegmentEntry Match
        have "rec pg (take (length toks - length mrest) toks) \<noteq> OutOfFuel"
          by (auto simp: match_ref_def Let_def split: match_outcome.splits)
        from extendsD [OF assms(1) this] \<open>library d name = Some entry\<close> SegmentEntry Match meq Some
        show ?thesis by (simp add: match_ref_def Let_def)
      qed
    qed
  qed
qed

lemma match_step_extends:
  assumes "extends rec rec'"
  shows "extends (match_step re d rec) (match_step re d rec')"
  unfolding extends_def
proof (intro allI impI)
  fix g toks
  assume r: "match_step re d rec g toks \<noteq> OutOfFuel"
  show "match_step re d rec' g toks = match_step re d rec g toks"
  proof (cases g)
    case (Terminal t ty)
    then show ?thesis by simp
  next
    case (Sequence children)
    with r show ?thesis by (simp add: match_sequence_extends [OF assms])
  next
    case (OneOf alternatives)
    with r show ?thesis by (simp add: match_one_of_extends [OF assms])
  next
    case (Bracketed inner bt bps)
    with r show ?thesis by (simp add: match_bracketed_extends [OF assms])
  next
    case (Delimited elem delim allow)
    with r show ?thesis by (simp add: match_delimited_extends [OF assms])
  next
    case (AnyNumberOf g' mn mx)
    with r show ?thesis by (simp add: match_any_number_of_extends [OF assms])
  next
    case (StartsWith anchor terminator enforce)
    with r show ?thesis by (simp add: match_starts_with_extends [OF assms])
  next
    case (Ref name)
    with r show ?thesis by (simp add: match_ref_extends [OF assms])
  next
    case Anything
    then show ?thesis by simp
  next
    case Nothing
    then show ?thesis by simp
  next
    case Indent
    then show ?thesis by simp
  next
    case Dedent
    then show ?thesis by simp
  qed
qed

lemma match_fuel_Suc_extends: "extends (match_fuel n re d) (match_fuel (Suc n) re d)"
proof (induction n)
  case 0
  show ?case by (simp add: extends_def)
next
  case (Suc n)
  from match_step_extends [OF Suc, of re d] show ?case by simp
qed

lemma match_fuel_extends:
  "n \<le> n' \<Longrightarrow> extends (match_fuel n re d) (match_fuel n' re d)"
proof (induction n' arbitrary: n)
  case 0
  then show ?case by (simp add: extends_def)
next
  case (Suc n')
  show ?case
  proof (cases "n = Suc n'")
    case True
    then show ?thesis by (simp add: extends_def)
  next
    case False
    with Suc.prems have "n \<le> n'" by simp
    from Suc.IH [OF this] match_fuel_Suc_extends [of n' re d] show ?thesis
      unfolding extends_def by metis
  qed
qed

lemma parse_more_fuel:
  assumes "parse fuel re d inp = Some tree" and "fuel \<le> fuel'"
  shows "parse fuel' re d inp = Some tree"
proof -
  let ?toks = "lex re (lexer_matchers d) 0 inp"
  from assms(1) have "match_fuel fuel re d (Ref (root_grammar d)) ?toks \<noteq> OutOfFuel"
    by (auto simp: parse_def)
  from extendsD [OF match_fuel_extends [OF assms(2)] this] assms(1) show ?thesis
    by (simp add: parse_def)
qed

subsection \<open>The example dialect\<close>

lemma example_library:
  "library example_dialect ''FileGrammar'' = Some (GrammarEntry
      (Delimited (Ref ''StatementSegment'') (Ref ''SemicolonSegment'') True))"
  "library example_dialect ''StatementSegment'' = Some (SegmentEntry ''statement''
      (StartsWith (Ref ''SelectKeywordSegment'') (Some (Ref ''SemicolonSegment'')) False)
      (Some (Sequence [(Ref ''SelectKeywordSegment'', False), (Ref ''DatatypeSegment'', False)])))"
  "library example_dialect ''DatatypeSegment'' = Some (SegmentEntry ''data_type''
      (OneOf
        [Ref ''DatatypeIdentifierSegment'',
         Sequence [(Terminal (Literal ''ANY'') ''keyword'', False),
                   (Terminal (Literal ''TYPE'') ''keyword'', False)],
         Sequence [(Terminal (Literal ''ARRAY'') ''keyword'', False),
                   (Bracketed (Ref ''DatatypeSegment'') ''angle'' ''angle_bracket_pairs'',
                    False)],
         Sequence [(Terminal (Literal ''STRUCT'') ''keyword'', False),
                   (Bracketed
                      (Delimited
                         (Sequence [(Ref ''ParameterNameSegment'', False),
                                    (Ref ''DatatypeSegment'', False)])
                         (Ref ''CommaSegment'') False)
                      ''angle'' ''angle_bracket_pairs'', False)]])
      None)"
  "library example_dialect ''ParameterNameSegment'' = Some (GrammarEntry
      (OneOf [Terminal (Pattern ''[A-Z_][A-Z0-9_]*'') ''parameter'',
              Terminal (Pattern ''`[^`]*`'') ''parameter'']))"
  "library example_dialect ''DatatypeIdentifierSegment'' = Some (GrammarEntry
      (Terminal (Literal ''INT'') ''data_type_identifier''))"
  "library example_dialect ''SelectKeywordSegment'' =
     Some (GrammarEntry (Terminal (Literal ''SELECT'') ''keyword''))"
  "library example_dialect ''SemicolonSegment'' =
     Some (GrammarEntry (Terminal (Literal '';'') ''semicolon''))"
  "library example_dialect ''CommaSegment'' =
     Some (GrammarEntry (Terminal (Literal '','') ''comma''))"
  "library example_dialect ''StartAngleBracketSegment'' =
     Some (GrammarEntry (Terminal (Literal ''<'') ''start_angle_bracket''))"
  "library example_dialect ''EndAngleBracketSegment'' =
     Some (GrammarEntry (Terminal (Literal ''>'') ''end_angle_bracket''))"
  "bracket_sets example_dialect ''angle_bracket_pairs'' =
     [(''angle'', ''StartAngleBracketSegment'', ''EndAngleBracketSegment'')]"
  "root_grammar example_dialect = ''FileGrammar''"
  by (simp_all add: example_dialect_def)

lemma example_terminal_names:
  assumes "library example_dialect name = Some (GrammarEntry (Terminal t ty))"
  shows "fuel_covers (Suc (Suc m)) example_dialect k (Ref name)"
    and "surely_consumes (Suc (Suc m)) example_dialect (Ref name)"
  using assms by simp_all

lemma example_parameter_name:
  "fuel_covers (Suc (Suc (Suc m))) example_dialect k (Ref ''ParameterNameSegment'')"
  "surely_consumes (Suc (Suc (Suc m))) example_dialect (Ref ''ParameterNameSegment'')"
  by (simp_all add: example_library)

lemma example_struct_fields:
  assumes "j = 0 \<or> fuel_covers (Suc (Suc (Suc m))) example_dialect (j - 1) (Ref ''DatatypeSegment'')"
  shows "fuel_covers (Suc (Suc (Suc (Suc (Suc m))))) example_dialect j
           (Delimited
              (Sequence [(Ref ''ParameterNameSegment'', False), (Ref ''DatatypeSegment'', False)])
              (Ref ''CommaSegment'') False)"
proof -
  define M where "M = Suc (Suc (Suc m))"
  have p: "fuel_covers M example_dialect j (Ref ''ParameterNameSegment'')"
    and sp: "surely_consumes M example_dialect (Ref ''ParameterNameSegment'')"
    unfolding M_def by (rule example_parameter_name)+
  have t: "\<And>i t ty. fuel_covers M example_dialect i (Terminal t ty)"
    unfolding M_def by simp
  from assms have d: "j = 0 \<or> fuel_covers M example_dialect (j - 1) (Ref ''DatatypeSegment'')"
    by (simp only: M_def)
  have "fuel_covers (Suc (Suc M)) example_dialect j
           (Delimited
              (Sequence [(Ref ''ParameterNameSegment'', False), (Ref ''DatatypeSegment'', False)])
              (Ref ''CommaSegment'') False)"
    using d by (auto simp: example_library p sp t)
  then show ?thesis by (simp only: M_def)
qed

lemma example_datatype_step:
  assumes a: "fuel_covers (Suc (Suc (Suc (Suc (Suc m))))) example_dialect i (Ref ''DatatypeSegment'')"
    and b: "i = 0 \<or> fuel_covers (Suc (Suc (Suc m))) example_dialect (i - 1) (Ref ''DatatypeSegment'')"
  shows "fuel_covers (Suc (Suc (Suc (Suc (Suc (Suc (Suc (Suc (Suc m))))))))) example_dialect
           (Suc (Suc i)) (Ref ''DatatypeSegment'')"
proof -
  define M where "M = Suc (Suc (Suc (Suc (Suc m))))"
  have s: "\<And>j. fuel_covers M example_dialect j (Ref ''StartAngleBracketSegment'')"
    and e: "\<And>j. fuel_covers M example_dialect j (Ref ''EndAngleBracketSegment'')"
    and cs: "surely_consumes M example_dialect (Ref ''StartAngleBracketSegment'')"
    unfolding M_def
    by (rule example_terminal_names [OF example_library(9)]
        example_terminal_names [OF example_library(10)])+
  from a have a': "fuel_covers M example_dialect i (Ref ''DatatypeSegment'')"
    by (simp only: M_def)
  have f: "fuel_covers M example_dialect i
           (Delimited
              (Sequence [(Ref ''ParameterNameSegment'', False), (Ref ''DatatypeSegment'', False)])
              (Ref ''CommaSegment'') False)"
    unfolding M_def using b by (rule example_struct_fields)
  have "fuel_covers (Suc (Suc (Suc (Suc M)))) example_dialect (Suc (Suc i)) (Ref ''DatatypeSegment'')"
    by (simp add: example_library s e cs a' f)
  then show ?thesis by (simp only: M_def)
qed

lemma example_datatype_covers:
  "fuel_covers (2 * k + 5) example_dialect k (Ref ''DatatypeSegment'')"
proof (induction k rule: less_induct)
  case (less k)
  consider "k = 0" | "k = 1" | i where "k = Suc (Suc i)"
    by (metis One_nat_def nat.exhaust)
  then show ?case
  proof cases
    case 1
    then show ?thesis by (simp add: eval_nat_numeral example_library)
  next
    case 2
    then show ?thesis by (simp add: eval_nat_numeral example_library)
  next
    case 3
    have n: "2 * k + 5 = Suc (Suc (Suc (Suc (Suc (Suc (Suc (Suc (Suc (2 * i)))))))))"
      using 3 by simp
    from less [of i] 3
    have a: "fuel_covers (Suc (Suc (Suc (Suc (Suc (2 * i)))))) example_dialect i (Ref ''DatatypeSegment'')"
      by (simp add: eval_nat_numeral del: fuel_covers.simps)
    have b: "i = 0 \<or> fuel_covers (Suc (Suc (Suc (2 * i)))) example_dialect (i - 1) (Ref ''DatatypeSegment'')"
    proof (cases i)
      case 0
      then show ?thesis by simp
    next
      case (Suc i')
      with less [of i'] 3
      have "fuel_covers (2 * i' + 5) example_dialect i' (Ref ''DatatypeSegment'')" by simp
      moreover from Suc have "2 * i' + 5 = Suc (Suc (Suc (2 * i)))" by simp
      ultimately show ?thesis using Suc by (simp del: fuel_covers.simps)
    qed
    from example_datatype_step [OF a b]
    have "fuel_covers (2 * k + 5) example_dialect (Suc (Suc i)) (Ref ''DatatypeSegment'')"
      by (simp only: n)
    then show ?thesis by (simp only: 3)
  qed
qed

lemma example_file_covers:
  "fuel_covers (2 * k + 7) example_dialect k (Ref ''FileGrammar'')"
proof (cases k)
  case 0
  then show ?thesis by (simp add: eval_nat_numeral example_library)
next
  case (Suc i)
  define M where "M = 2 * i + 5"
  have n: "2 * k + 7 = Suc (Suc (Suc (Suc M)))" using Suc by (simp add: M_def)
  have M: "M = Suc (Suc (2 * i + 3))" by (simp add: M_def)
  have s: "\<And>j. fuel_covers M example_dialect j (Ref ''SelectKeywordSegment'')"
    and e: "\<And>j. fuel_covers M example_dialect j (Ref ''SemicolonSegment'')"
    and cs: "surely_consumes M example_dialect (Ref ''SelectKeywordSegment'')"
    unfolding M
    by (rule example_terminal_names [OF example_library(6)]
        example_terminal_names [OF example_library(7)])+
  have d: "fuel_covers M example_dialect i (Ref ''DatatypeSegment'')"
    unfolding M_def by (rule example_datatype_covers)
  have "fuel_covers (Suc (Suc (Suc (Suc M)))) example_dialect (Suc i) (Ref ''FileGrammar'')"
    by (simp add: example_library s e cs d)
  then have "fuel_covers (2 * k + 7) example_dialect (Suc i) (Ref ''FileGrammar'')"
    by (simp only: n)
  then show ?thesis by (simp only: Suc)
qed

lemma example_parse_returns:
  "\<exists>tree. parse (2 * length (lex re (lexer_matchers example_dialect) 0 inp) + 7) re
      example_dialect inp = Some tree"
  by (rule parse_returns) (simp only: example_library(12) example_file_covers)



end
